theory Spec2Isabelle
  imports Complex_Main "HOL-Library.Word" "HOL-Library.Sublist"
begin

section \<open>Strings of the source language\<close>

text \<open>
  The engine of \<^verbatim>\<open>utils/textChunking.ts\<close> works on JavaScript strings: finite
  sequences of 16-bit code units, measured and sliced by code unit. Sizes and positions
  are the integral numbers the callers pass (character counts), modelled as \<open>int\<close>.
\<close>

type_synonym jschar = "16 word"
type_synonym jsstring = "jschar list"

definition js :: "string \<Rightarrow> jsstring" where
  \<comment> \<open>an ASCII literal as a string of code units\<close>
  "js s = map (\<lambda>c. of_nat (of_char c)) s"

text \<open>
  \<^verbatim>\<open>String.prototype.substring(start, end)\<close>: both arguments are clamped to
  \<open>[0, length]\<close> and swapped when the first exceeds the second. With one argument the
  end is the length of the string.
\<close>

definition substring :: "jsstring \<Rightarrow> int \<Rightarrow> int \<Rightarrow> jsstring" where
  "substring s a b =
     (let n = int (length s);
          a' = min (max a 0) n;
          b' = min (max b 0) n;
          from = min a' b';
          to = max a' b'
      in take (nat (to - from)) (drop (nat from) s))"

definition substring_from :: "jsstring \<Rightarrow> int \<Rightarrow> jsstring" where
  "substring_from s a = substring s a (int (length s))"

text \<open>
  \<^verbatim>\<open>indexOf\<close> and \<^verbatim>\<open>lastIndexOf\<close>: the least, respectively greatest, index at
  which the pattern starts, and \<open>-1\<close> when it occurs nowhere.
\<close>

definition indexOf :: "jsstring \<Rightarrow> jsstring \<Rightarrow> int" where
  "indexOf s pat =
     (case filter (\<lambda>k. prefix pat (drop k s)) [0..<Suc (length s)] of
        [] \<Rightarrow> -1
      | k # _ \<Rightarrow> int k)"

definition lastIndexOf :: "jsstring \<Rightarrow> jsstring \<Rightarrow> int" where
  "lastIndexOf s pat =
     (case filter (\<lambda>k. prefix pat (drop k s)) (rev [0..<Suc (length s)]) of
        [] \<Rightarrow> -1
      | k # _ \<Rightarrow> int k)"

definition endsWith :: "jsstring \<Rightarrow> jsstring \<Rightarrow> bool" where
  "endsWith s pat = suffix pat s"

definition startsWith :: "jsstring \<Rightarrow> jsstring \<Rightarrow> bool" where
  "startsWith s pat = prefix pat s"

text \<open>
  \<^verbatim>\<open>Math.max(...xs)\<close> of an empty argument list is \<open>-Infinity\<close>, which the source
  then compares with \<open>0\<close>.
\<close>

datatype jsnum = NegInfinity | Num int

definition Math_max :: "int list \<Rightarrow> jsnum" where
  "Math_max xs = (case xs of [] \<Rightarrow> NegInfinity | x # ys \<Rightarrow> Num (fold max ys x))"

fun gt_zero :: "jsnum \<Rightarrow> bool" where
  "gt_zero NegInfinity = False"
| "gt_zero (Num i) = (i > 0)"

fun num_val :: "jsnum \<Rightarrow> int" where
  "num_val NegInfinity = 0"
| "num_val (Num i) = i"

text \<open>The code units the source names.\<close>

abbreviation NL :: jschar where "NL \<equiv> 10"
abbreviation SP :: jschar where "SP \<equiv> 32"
abbreviation DOT :: jschar where "DOT \<equiv> 46"
abbreviation BANG :: jschar where "BANG \<equiv> 33"
abbreviation CJK_STOP :: jschar where "CJK_STOP \<equiv> 12290"
abbreviation AR_QUESTION :: jschar where "AR_QUESTION \<equiv> 1567"

section \<open>The splitter\<close>

record ChunkMetadata =
  index :: nat
  totalChunks :: nat
  startPosition :: int
  endPosition :: int
  overlapStart :: jsstring
  overlapEnd :: jsstring

record SmartChunk =
  text_of :: jsstring
  metadata :: ChunkMetadata

definition paragraphBreaks :: "jsstring \<Rightarrow> int list" where
  "paragraphBreaks searchText =
     [lastIndexOf searchText [NL, NL],
      lastIndexOf searchText [NL, SP, NL],
      lastIndexOf searchText [DOT, NL],
      lastIndexOf searchText [CJK_STOP, NL],
      lastIndexOf searchText [AR_QUESTION, NL],
      lastIndexOf searchText [BANG, NL]]"

definition sentenceBreaks :: "jsstring \<Rightarrow> int list" where
  "sentenceBreaks searchText =
     [lastIndexOf searchText [DOT, SP],
      lastIndexOf searchText [CJK_STOP, SP],
      lastIndexOf searchText [AR_QUESTION, SP],
      lastIndexOf searchText [BANG, SP]]"

text \<open>The body of the loop up to the choice of \<^verbatim>\<open>chunkEnd\<close> (source lines 52 to 105).\<close>

definition chunkEnd_of :: "jsstring \<Rightarrow> int \<Rightarrow> int \<Rightarrow> int \<Rightarrow> int" where
  "chunkEnd_of txt maxChunkSize overlapSize position =
     (let remainingLength = int (length txt) - position in
      if remainingLength \<le> maxChunkSize + overlapSize then int (length txt)
      else
        let searchStart = max (position + maxChunkSize - 2000) position;
            searchEnd = min (position + maxChunkSize + 2000) (int (length txt));
            searchText = substring txt searchStart searchEnd;
            bestBreak = Math_max (filter (\<lambda>i. i > 0) (paragraphBreaks searchText))
        in if gt_zero bestBreak then searchStart + num_val bestBreak + 2
           else
             let bestSentence = Math_max (filter (\<lambda>i. i > 0) (sentenceBreaks searchText))
             in if gt_zero bestSentence then searchStart + num_val bestSentence + 2
                else position + maxChunkSize)"

definition mk_chunk :: "jsstring \<Rightarrow> int \<Rightarrow> int \<Rightarrow> jsstring \<Rightarrow> nat \<Rightarrow> int \<Rightarrow> SmartChunk" where
  "mk_chunk txt overlapSize position previousOverlap n chunkEnd =
     \<lparr> text_of = substring txt position chunkEnd,
       metadata = \<lparr> index = n, totalChunks = 0,
                    startPosition = position, endPosition = chunkEnd,
                    overlapStart = previousOverlap,
                    overlapEnd =
                      (if chunkEnd < int (length txt)
                       then substring txt chunkEnd (min (chunkEnd + overlapSize) (int (length txt)))
                       else []) \<rparr> \<rparr>"

text \<open>
  The \<^verbatim>\<open>while\<close> loop (source lines 51 to 126). It may run forever, so it is a partial
  function: \<open>None\<close> is the run that never returns.
\<close>

partial_function (option) chunk_loop ::
  "jsstring \<Rightarrow> int \<Rightarrow> int \<Rightarrow> int \<Rightarrow> jsstring \<Rightarrow> SmartChunk list \<Rightarrow> SmartChunk list option" where
  "chunk_loop txt maxChunkSize overlapSize position previousOverlap chunks =
     (if position < int (length txt) then
        let chunkEnd = chunkEnd_of txt maxChunkSize overlapSize position;
            chunkText = substring txt position chunkEnd
        in chunk_loop txt maxChunkSize overlapSize chunkEnd
             (substring_from chunkText (max 0 (int (length chunkText) - overlapSize)))
             (chunks @ [mk_chunk txt overlapSize position previousOverlap (length chunks) chunkEnd])
      else Some chunks)"

definition set_total :: "nat \<Rightarrow> SmartChunk \<Rightarrow> SmartChunk" where
  "set_total n c = c\<lparr> metadata := (metadata c)\<lparr> totalChunks := n \<rparr> \<rparr>"

definition chunkTextSmart :: "jsstring \<Rightarrow> int \<Rightarrow> int \<Rightarrow> SmartChunk list option" where
  "chunkTextSmart txt maxChunkSize overlapSize =
     (if int (length txt) \<le> maxChunkSize then
        Some [\<lparr> text_of = txt,
                metadata = \<lparr> index = 0, totalChunks = 1, startPosition = 0,
                             endPosition = int (length txt),
                             overlapStart = [], overlapEnd = [] \<rparr> \<rparr>]
      else
        map_option (\<lambda>chunks. map (set_total (length chunks)) chunks)
          (chunk_loop txt maxChunkSize overlapSize 0 [] []))"

section \<open>The merger\<close>

text \<open>
  The inner \<^verbatim>\<open>for\<close> loop (source lines 156 to 164): \<open>j\<close> counts down while it is above
  50; the result is \<^verbatim>\<open>bestOverlap\<close>, 0 when no length matched.
\<close>

fun find_overlap :: "jsstring \<Rightarrow> jsstring \<Rightarrow> nat \<Rightarrow> nat" where
  "find_overlap mergedEnd currentStart j =
     (if j > 50 then
        (if indexOf currentStart
              (substring_from mergedEnd (int (length mergedEnd) - int j)) \<ge> 0
         then j
         else find_overlap mergedEnd currentStart (j - 1))
      else 0)"

declare find_overlap.simps [simp del]

text \<open>
  One pass of the outer \<^verbatim>\<open>for\<close> loop (source lines 146 to 176), in two parts: the
  search for \<^verbatim>\<open>bestOverlap\<close>, and the new value of \<^verbatim>\<open>merged\<close>.
\<close>

definition bestOverlap_of :: "jsstring \<Rightarrow> jsstring \<Rightarrow> nat" where
  "bestOverlap_of merged currentChunk =
     (let overlapSize = 500;
          mergedEnd = substring_from merged (max 0 (int (length merged) - overlapSize));
          currentStart = substring currentChunk 0 (min overlapSize (int (length currentChunk)))
      in find_overlap mergedEnd currentStart (nat (min 200 (int (length mergedEnd)))))"

definition merge_step :: "jsstring \<Rightarrow> jsstring \<Rightarrow> jsstring" where
  "merge_step merged currentChunk =
     (let bestOverlap = bestOverlap_of merged currentChunk
      in if bestOverlap \<noteq> 0
         then substring merged 0 (int (length merged) - int bestOverlap) @ currentChunk
         else
           (if \<not> endsWith merged [NL] \<and> \<not> startsWith currentChunk [NL]
            then (if \<not> endsWith merged [SP] \<and> \<not> startsWith currentChunk [SP]
                  then merged @ [SP] else merged)
            else merged) @ currentChunk)"

definition mergeEditedChunks :: "jsstring list \<Rightarrow> jsstring" where
  "mergeEditedChunks editedChunks =
     (case editedChunks of
        [] \<Rightarrow> []
      | [x] \<Rightarrow> x
      | x # rest \<Rightarrow> foldl merge_step x rest)"

section \<open>The length validator\<close>

text \<open>
  White space as \<^verbatim>\<open>trim\<close> and the pattern \<^verbatim>\<open>\s\<close> see it: the white-space and
  line-terminator code units of the language.
\<close>

definition is_ws :: "jschar \<Rightarrow> bool" where
  "is_ws c = (c \<in> {9, 10, 11, 12, 13, 32, 160, 5760, 8232, 8233, 8239, 8287, 12288, 65279}
              \<or> (8192 \<le> c \<and> c \<le> 8202))"

definition trim :: "jsstring \<Rightarrow> jsstring" where
  "trim s = rev (dropWhile is_ws (rev (dropWhile is_ws s)))"

text \<open>
  \<^verbatim>\<open>split(/\s+/)\<close>: the pieces between maximal runs of white space; a run at either end
  leaves an empty piece there, and the empty string gives one empty piece.
\<close>

function split_ws :: "jsstring \<Rightarrow> jsstring \<Rightarrow> jsstring list" where
  "split_ws cur [] = [rev cur]"
| "split_ws cur (c # cs) =
     (if is_ws c then rev cur # split_ws [] (dropWhile is_ws cs)
      else split_ws (c # cur) cs)"
  by pat_completeness auto
termination
  by (relation "measure (\<lambda>(cur, s). length s)")
     (auto simp: le_imp_less_Suc length_dropWhile_le)

text \<open>
  The numbers of the language are IEEE 754 doubles: the result of an arithmetic operation
  is the exact result rounded to the nearest double, ties to the even significand. A
  double is modelled as the rational it denotes; \<open>to_double\<close> rounds a rational to 53
  significant bits. It covers the normal range (magnitudes from \<open>2 ^ -1022\<close> and below
  \<open>2 ^ 1024\<close>), in which every quantity of the validator lies: its counts are lengths of
  arrays, below \<open>2 ^ 32\<close>.
\<close>

fun bit_length :: "nat \<Rightarrow> nat" where
  "bit_length n = (if n = 0 then 0 else Suc (bit_length (n div 2)))"

declare bit_length.simps [simp del]

definition binade :: "rat \<Rightarrow> int" where
  \<comment> \<open>for \<open>q > 0\<close>, the \<open>e\<close> with \<open>2 ^ e \<le> q < 2 ^ (e + 1)\<close>\<close>
  "binade q = (if 1 \<le> q then int (bit_length (nat \<lfloor>q\<rfloor>)) - 1
               else - int (bit_length (nat \<lceil>1 / q\<rceil> - 1)))"

definition round_even :: "rat \<Rightarrow> int" where
  "round_even x =
     (let f = \<lfloor>x\<rfloor>; d = x - of_int f
      in if d < 1 / 2 then f else if 1 / 2 < d then f + 1
         else if even f then f else f + 1)"

definition to_double :: "rat \<Rightarrow> rat" where
  "to_double x =
     (if x = 0 then 0
      else let k = binade \<bar>x\<bar> - 52
           in if 0 \<le> k then of_int (round_even (x / 2 ^ nat k)) * 2 ^ nat k
              else of_int (round_even (x * 2 ^ nat (- k))) / 2 ^ nat (- k))"

text \<open>
  Division of two counts as the language does it: no exception, a quotient that is not a
  finite number when the divisor is 0.
\<close>

datatype jsratio = Finite rat | Infinity | NaN

definition js_div :: "nat \<Rightarrow> nat \<Rightarrow> jsratio" where
  "js_div a b =
     (if b = 0 then (if a = 0 then NaN else Infinity)
      else Finite (to_double (of_nat a / of_nat b)))"

fun times100 :: "jsratio \<Rightarrow> jsratio" where
  "times100 (Finite q) = Finite (to_double (q * 100))"
| "times100 Infinity = Infinity"
| "times100 NaN = NaN"

fun abs_diff100 :: "jsratio \<Rightarrow> jsratio" where
  \<comment> \<open>\<^verbatim>\<open>Math.abs(100 - ratio)\<close>\<close>
  "abs_diff100 (Finite q) = Finite (\<bar>to_double (100 - q)\<bar>)"
| "abs_diff100 Infinity = Infinity"
| "abs_diff100 NaN = NaN"

fun le_num :: "jsratio \<Rightarrow> rat \<Rightarrow> bool" where
  \<comment> \<open>\<^verbatim>\<open>difference <= tolerancePercent\<close>: false for \<open>Infinity\<close> and \<open>NaN\<close>\<close>
  "le_num (Finite q) t = (q \<le> t)"
| "le_num Infinity t = False"
| "le_num NaN t = False"

text \<open>
  The report of the validator. Its \<^verbatim>\<open>message\<close>, a formatted string, is left out; the
  two counts it is computed from are kept, so that they can be spoken of.
\<close>

record Validation =
  isValid :: bool
  ratio :: jsratio
  originalLength :: nat
  editedLength :: nat

definition validateEditedLength :: "jsstring \<Rightarrow> jsstring \<Rightarrow> rat \<Rightarrow> Validation" where
  "validateEditedLength originalText editedText tolerancePercent =
     (let originalLength = length (split_ws [] (trim originalText));
          editedLength = length (split_ws [] (trim editedText));
          ratio = times100 (js_div editedLength originalLength);
          difference = abs_diff100 ratio
      in \<lparr> isValid = le_num difference tolerancePercent, ratio = ratio,
           originalLength = originalLength, editedLength = editedLength \<rparr>)"

definition countWords :: "jsstring \<Rightarrow> nat" where
  "countWords s = length (filter (\<lambda>w. length w > 0) (split_ws [] (trim s)))"

section \<open>Auxiliary notions\<close>

text \<open>What every chunk emitted by the loop satisfies, for the proofs below.\<close>

definition chunk_ok :: "jsstring \<Rightarrow> int \<Rightarrow> int \<Rightarrow> SmartChunk \<Rightarrow> bool" where
  "chunk_ok txt m ov c =
     (text_of c \<noteq> [] \<and> int (length (text_of c)) \<le> m + max ov 2000 \<and>
      0 \<le> startPosition (metadata c) \<and>
      startPosition (metadata c) < endPosition (metadata c) \<and>
      endPosition (metadata c) \<le> int (length txt) \<and>
      text_of c = substring txt (startPosition (metadata c)) (endPosition (metadata c)))"

text \<open>
  The overlap test in the words of the specification, with the width of the leading
  window of \<open>current\<close> as a parameter: some length \<open>j\<close> from \<open>min 200 (length acc)\<close> down
  to 51 is such that the last \<open>j\<close> characters of the accumulator occur in the leading
  \<open>min window (length current)\<close> characters of \<open>current\<close>.
\<close>

definition overlap_detected :: "nat \<Rightarrow> jsstring \<Rightarrow> jsstring \<Rightarrow> bool" where
  "overlap_detected window acc cur =
     (\<exists>j \<in> set [51..<Suc (min 200 (length acc))].
        sublist (drop (length acc - j) acc) (take (min window (length cur)) cur))"

text \<open>The one chunk that spans a whole text.\<close>

definition whole_chunk :: "jsstring \<Rightarrow> SmartChunk" where
  "whole_chunk s =
     \<lparr> text_of = s,
       metadata = \<lparr> index = 0, totalChunks = 1, startPosition = 0,
                    endPosition = int (length s), overlapStart = [], overlapEnd = [] \<rparr> \<rparr>"

text \<open>
  The boundary search in the words of the specification: the marks of a paragraph break
  and of a sentence end, the search window of a position, and a mark starting at an index
  \<open>i > 0\<close> of a window.
\<close>

definition paragraph_marks :: "jsstring list" where
  "paragraph_marks =
     [[NL, NL], [NL, SP, NL], [DOT, NL], [CJK_STOP, NL], [AR_QUESTION, NL], [BANG, NL]]"

definition sentence_marks :: "jsstring list" where
  "sentence_marks = [[DOT, SP], [CJK_STOP, SP], [AR_QUESTION, SP], [BANG, SP]]"

definition search_window :: "jsstring \<Rightarrow> int \<Rightarrow> int \<Rightarrow> jsstring" where
  "search_window txt maxChunkSize position =
     substring txt (max (position + maxChunkSize - 2000) position)
       (min (position + maxChunkSize + 2000) (int (length txt)))"

definition break_at :: "jsstring list \<Rightarrow> jsstring \<Rightarrow> nat \<Rightarrow> bool" where
  "break_at marks w i = (0 < i \<and> (\<exists>pat \<in> set marks. prefix pat (drop i w)))"

text \<open>
  A run of the loop described by its cut points: from \<open>position\<close>, the successive values
  of \<^verbatim>\<open>chunkEnd\<close> are the given list and the loop then stops; and the slices of the text
  between these points.
\<close>

fun follows :: "jsstring \<Rightarrow> int \<Rightarrow> int \<Rightarrow> int \<Rightarrow> int list \<Rightarrow> bool" where
  "follows txt maxChunkSize overlapSize position [] = (\<not> position < int (length txt))"
| "follows txt maxChunkSize overlapSize position (e # es) =
     (position < int (length txt) \<and> chunkEnd_of txt maxChunkSize overlapSize position = e
      \<and> follows txt maxChunkSize overlapSize e es)"

fun pieces :: "jsstring \<Rightarrow> int \<Rightarrow> int list \<Rightarrow> jsstring list" where
  "pieces txt position [] = []"
| "pieces txt position (e # es) = substring txt position e # pieces txt e es"


definition late_break_text :: jsstring where
  "late_break_text = replicate 76500 97 @ [NL, NL] @ replicate 5000 98"

text \<open>
  A merge boundary that leaves both texts as they are: no overlap is detected, and the
  accumulator ends with, or the next text starts with, a newline or a space.
\<close>

definition clean_boundary :: "jsstring \<Rightarrow> jsstring \<Rightarrow> bool" where
  "clean_boundary acc cur =
     (\<not> overlap_detected 500 acc cur
      \<and> (endsWith acc [NL] \<or> startsWith cur [NL] \<or> endsWith acc [SP] \<or> startsWith cur [SP]))"

section \<open>Facts about the string operations\<close>

lemma substring_take_drop:
  "0 \<le> a \<Longrightarrow> a \<le> b \<Longrightarrow> b \<le> int (length s) \<Longrightarrow>
   substring s a b = take (nat (b - a)) (drop (nat a) s)"
  by (simp add: substring_def Let_def min_def max_def)

lemma length_substring_le: "length (substring s a b) \<le> length s"
proof -
  have "length (take n (drop m s)) \<le> length s" for n m
    by (simp add: min.coboundedI1)
  then show ?thesis unfolding substring_def Let_def by blast
qed

lemma length_substring:
  "0 \<le> a \<Longrightarrow> a \<le> b \<Longrightarrow> b \<le> int (length s) \<Longrightarrow> length (substring s a b) = nat (b - a)"
  by (simp add: substring_take_drop)

lemma filter_rev_upt_hd:
  "filter P (rev [0..<n]) = k # ks \<Longrightarrow> P k \<and> k < n \<and> (\<forall>k'. k < k' \<and> k' < n \<longrightarrow> \<not> P k')"
proof (induction n)
  case 0
  then show ?case by simp
next
  case (Suc n)
  show ?case
  proof (cases "P n")
    case True
    with Suc.prems show ?thesis by auto
  next
    case False
    with Suc.prems have "filter P (rev [0..<n]) = k # ks" by simp
    from Suc.IH[OF this] have a: "P k" "k < n" and b: "\<forall>k'. k < k' \<and> k' < n \<longrightarrow> \<not> P k'"
      by blast+
    have "\<not> P k'" if "k < k'" "k' < Suc n" for k'
    proof (cases "k' = n")
      case True
      with False show ?thesis by simp
    next
      case False
      with that have "k' < n" by simp
      with b that show ?thesis by blast
    qed
    with a show ?thesis by simp
  qed
qed

lemma filter_rev_upt_Nil:
  "filter P (rev [0..<n]) = [] \<Longrightarrow> k < n \<Longrightarrow> \<not> P k"
  by (auto simp: filter_empty_conv)

lemma filter_upt_hd:
  "filter P [0..<n] = k # ks \<Longrightarrow> P k \<and> k < n \<and> (\<forall>k'. k' < k \<longrightarrow> \<not> P k')"
proof (induction n arbitrary: k ks)
  case 0
  then show ?case by simp
next
  case (Suc n)
  show ?case
  proof (cases "filter P [0..<n]")
    case Nil
    with Suc.prems have "P n" "k = n" by (auto split: if_splits)
    moreover from Nil have "\<forall>k'<n. \<not> P k'" by (auto simp: filter_empty_conv)
    ultimately show ?thesis by simp
  next
    case (Cons a as)
    with Suc.prems have "a = k" by (auto split: if_splits)
    with Cons have "filter P [0..<n] = k # as" by simp
    from Suc.IH[OF this] show ?thesis by simp
  qed
qed

lemma prefix_drop_bound: "prefix pat (drop k s) \<Longrightarrow> k + length pat \<le> length s \<or> pat = []"
  by (cases "k \<le> length s") (auto dest: prefix_length_le)

lemma lastIndexOf_cases:
  "(lastIndexOf s pat = -1 \<and> (\<forall>k. \<not> prefix pat (drop k s)))
   \<or> (\<exists>k. lastIndexOf s pat = int k \<and> k \<le> length s \<and> prefix pat (drop k s)
          \<and> (\<forall>k'. prefix pat (drop k' s) \<and> k' \<le> length s \<longrightarrow> k' \<le> k))"
proof (cases "filter (\<lambda>k. prefix pat (drop k s)) (rev [0..<Suc (length s)])")
  case Nil
  have "\<not> prefix pat (drop k s)" for k
  proof (cases "k \<le> length s")
    case True
    then show ?thesis using filter_rev_upt_Nil[OF Nil, of k] by simp
  next
    case False
    then have "drop k s = drop (length s) s" by simp
    then show ?thesis using filter_rev_upt_Nil[OF Nil, of "length s"] by simp
  qed
  with Nil show ?thesis by (simp add: lastIndexOf_def)
next
  case (Cons k ks)
  from filter_rev_upt_hd[OF Cons]
  have a: "prefix pat (drop k s)" "k \<le> length s"
    and b: "\<forall>k'. k < k' \<and> k' < Suc (length s) \<longrightarrow> \<not> prefix pat (drop k' s)"
    by simp_all
  have c: "k' \<le> k" if "prefix pat (drop k' s)" "k' \<le> length s" for k'
    using b that by (meson le_imp_less_Suc not_le)
  have "lastIndexOf s pat = int k" using Cons by (simp add: lastIndexOf_def)
  with a c show ?thesis by blast
qed

subsection \<open>The greatest positive index\<close>

lemma fold_max_in: "fold max ys (x::int) \<in> set (x # ys)"
proof (induction ys arbitrary: x)
  case Nil
  then show ?case by simp
next
  case (Cons y ys)
  from Cons.IH[of "max y x"] show ?case by (auto simp: max_def split: if_splits)
qed

lemma fold_max_init: "(x::int) \<le> fold max ys x"
proof (induction ys arbitrary: x)
  case Nil
  then show ?case by simp
next
  case (Cons y ys)
  have "x \<le> max y x" by simp
  also have "\<dots> \<le> fold max ys (max y x)" by (rule Cons.IH)
  finally show ?case by simp
qed

lemma fold_max_ge: "z \<in> set (x # ys) \<Longrightarrow> z \<le> fold max ys (x::int)"
proof (induction ys arbitrary: x)
  case Nil
  then show ?case by simp
next
  case (Cons y ys)
  have m: "max y x \<le> fold max ys (max y x)" by (rule fold_max_init)
  from Cons.prems consider "z = x" | "z = y" | "z \<in> set ys" by auto
  then show ?case
  proof cases
    case 1
    with m show ?thesis by simp
  next
    case 2
    with m show ?thesis by simp
  next
    case 3
    then have "z \<in> set (max y x # ys)" by simp
    from Cons.IH[OF this] show ?thesis by simp
  qed
qed

lemma Math_max_filter_pos:
  assumes "gt_zero (Math_max (filter (\<lambda>i. 0 < i) xs))"
  shows "num_val (Math_max (filter (\<lambda>i. 0 < i) xs)) \<in> set xs"
    and "0 < num_val (Math_max (filter (\<lambda>i. 0 < i) xs))"
    and "\<forall>z \<in> set xs. z \<le> num_val (Math_max (filter (\<lambda>i. 0 < i) xs))"
proof -
  obtain y ys where f: "filter (\<lambda>i. 0 < i) xs = y # ys"
    using assms by (cases "filter (\<lambda>i. 0 < i) xs") (simp_all add: Math_max_def)
  then have v: "num_val (Math_max (filter (\<lambda>i. 0 < i) xs)) = fold max ys y"
    by (simp add: Math_max_def)
  have "fold max ys y \<in> set (filter (\<lambda>i. 0 < i) xs)"
    using fold_max_in[of ys y] f by simp
  then show "num_val (Math_max (filter (\<lambda>i. 0 < i) xs)) \<in> set xs"
    and p: "0 < num_val (Math_max (filter (\<lambda>i. 0 < i) xs))"
    using v by simp_all
  show "\<forall>z \<in> set xs. z \<le> num_val (Math_max (filter (\<lambda>i. 0 < i) xs))"
  proof
    fix z assume z: "z \<in> set xs"
    show "z \<le> num_val (Math_max (filter (\<lambda>i. 0 < i) xs))"
    proof (cases "0 < z")
      case True
      with z have "z \<in> set (filter (\<lambda>i. 0 < i) xs)" by simp
      then have "z \<in> set (y # ys)" using f by simp
      from fold_max_ge[OF this] v show ?thesis by simp
    next
      case False
      with p show ?thesis by simp
    qed
  qed
qed

lemma Math_max_filter_none:
  "\<not> gt_zero (Math_max (filter (\<lambda>i. 0 < i) xs)) \<Longrightarrow> \<forall>z \<in> set xs. z \<le> 0"
proof (cases "filter (\<lambda>i. 0 < i) xs")
  case Nil
  then show ?thesis by (auto simp: filter_empty_conv not_less)
next
  case (Cons y ys)
  assume n: "\<not> gt_zero (Math_max (filter (\<lambda>i. 0 < i) xs))"
  have "fold max ys y \<in> set (filter (\<lambda>i. 0 < i) xs)"
    using fold_max_in[of ys y] Cons by simp
  then have "0 < fold max ys y" by simp
  with n Cons show ?thesis by (simp add: Math_max_def)
qed

section \<open>Every pass of the loop advances\<close>

lemma lastIndexOf_pos_bound:
  assumes "0 < lastIndexOf w pat"
  shows "lastIndexOf w pat + int (length pat) \<le> int (length w)"
proof -
  from lastIndexOf_cases[of w pat] assms obtain k where
    k: "lastIndexOf w pat = int k" "k \<le> length w" "prefix pat (drop k w)"
    by auto
  from prefix_length_le[OF k(3)] k(2) have "k + length pat \<le> length w" by simp
  with k(1) show ?thesis by simp
qed

lemma break_bound:
  assumes "b \<in> set (paragraphBreaks w) \<union> set (sentenceBreaks w)" "0 < b"
  shows "b + 2 \<le> int (length w)"
proof -
  from assms(1) obtain pat where "b = lastIndexOf w pat" "2 \<le> length pat"
    by (auto simp: paragraphBreaks_def sentenceBreaks_def)
  with lastIndexOf_pos_bound[of w pat] assms(2) show ?thesis by simp
qed

lemma chunkEnd_of_bounds:
  assumes "1 \<le> m" "0 \<le> ov" "0 \<le> pos" "pos < int (length txt)"
  shows "pos < chunkEnd_of txt m ov pos"
    and "chunkEnd_of txt m ov pos \<le> int (length txt)"
    and "chunkEnd_of txt m ov pos - pos \<le> m + max ov 2000"
proof -
  let ?n = "int (length txt)"
  let ?e = "chunkEnd_of txt m ov pos"
  have "pos < ?e \<and> ?e \<le> ?n \<and> ?e - pos \<le> m + max ov 2000"
  proof (cases "?n - pos \<le> m + ov")
    case True
    then have "?e = ?n" by (simp add: chunkEnd_of_def)
    with True assms show ?thesis by simp
  next
    case False
    define ss where "ss = max (pos + m - 2000) pos"
    define se where "se = min (pos + m + 2000) ?n"
    define w where "w = substring txt ss se"
    define bb where "bb = Math_max (filter (\<lambda>i. 0 < i) (paragraphBreaks w))"
    define bs where "bs = Math_max (filter (\<lambda>i. 0 < i) (sentenceBreaks w))"
    have e: "?e = (if gt_zero bb then ss + num_val bb + 2
                   else if gt_zero bs then ss + num_val bs + 2 else pos + m)"
      using False by (simp add: chunkEnd_of_def Let_def ss_def se_def w_def bb_def bs_def)
    have ss: "pos \<le> ss" "0 \<le> ss" "ss \<le> se" "se \<le> ?n" "se \<le> pos + m + 2000"
      using assms False by (simp_all add: ss_def se_def)
    have lw: "int (length w) = se - ss"
      using ss by (simp add: w_def length_substring)
    show ?thesis
    proof (cases "gt_zero bb")
      case True
      from Math_max_filter_pos(1,2)[OF True[unfolded bb_def]]
      have "num_val bb \<in> set (paragraphBreaks w)" "0 < num_val bb" by (simp_all add: bb_def)
      with break_bound[of "num_val bb" w] have "num_val bb + 2 \<le> int (length w)" by simp
      with lw ss True e \<open>0 < num_val bb\<close> show ?thesis by simp
    next
      case nb: False
      show ?thesis
      proof (cases "gt_zero bs")
        case True
        from Math_max_filter_pos(1,2)[OF True[unfolded bs_def]]
        have "num_val bs \<in> set (sentenceBreaks w)" "0 < num_val bs" by (simp_all add: bs_def)
        with break_bound[of "num_val bs" w] have "num_val bs + 2 \<le> int (length w)" by simp
        with lw ss True nb e \<open>0 < num_val bs\<close> show ?thesis by simp
      next
        case False
        with nb e have "?e = pos + m" by simp
        with assms \<open>\<not> ?n - pos \<le> m + ov\<close> show ?thesis by simp
      qed
    qed
  qed
  then show "pos < ?e" "?e \<le> ?n" "?e - pos \<le> m + max ov 2000" by simp_all
qed

lemma take_drop_glue:
  "p \<le> e \<Longrightarrow> take (e - p) (drop p xs) @ drop e xs = drop p (xs::'a list)"
proof -
  assume "p \<le> e"
  then have "drop e xs = drop (e - p) (drop p xs)" by simp
  then show ?thesis by (simp only: append_take_drop_id)
qed

lemma mk_chunk_ok:
  assumes "1 \<le> m" "0 \<le> ov" "0 \<le> pos" "pos < int (length txt)"
  shows "chunk_ok txt m ov (mk_chunk txt ov pos prev n (chunkEnd_of txt m ov pos))"
proof -
  let ?e = "chunkEnd_of txt m ov pos"
  note b = chunkEnd_of_bounds[OF assms]
  have l: "length (substring txt pos ?e) = nat (?e - pos)"
    using assms b by (simp add: length_substring)
  with b have "substring txt pos ?e \<noteq> []" by auto
  with l b assms show ?thesis by (simp add: chunk_ok_def mk_chunk_def)
qed

lemma chunk_loop_run:
  assumes "1 \<le> m" "0 \<le> ov" "0 \<le> pos"
  shows "\<exists>cs. chunk_loop txt m ov pos prev chunks = Some (chunks @ cs)
           \<and> concat (map text_of cs) = drop (nat pos) txt
           \<and> (\<forall>c \<in> set cs. chunk_ok txt m ov c)"
  using assms(3)
proof (induction "nat (int (length txt) - pos)" arbitrary: pos prev chunks rule: less_induct)
  case less
  show ?case
  proof (cases "pos < int (length txt)")
    case False
    then have "chunk_loop txt m ov pos prev chunks = Some chunks"
      by (subst chunk_loop.simps) simp
    moreover from False have "drop (nat pos) txt = []" by simp
    ultimately show ?thesis by simp
  next
    case True
    define e where "e = chunkEnd_of txt m ov pos"
    define c where "c = mk_chunk txt ov pos prev (length chunks) e"
    define prev' where "prev' = substring_from (substring txt pos e)
                                  (max 0 (int (length (substring txt pos e)) - ov))"
    note b = chunkEnd_of_bounds[OF assms(1,2) less.prems True, folded e_def]
    have step: "chunk_loop txt m ov pos prev chunks = chunk_loop txt m ov e prev' (chunks @ [c])"
      using True by (subst chunk_loop.simps) (simp add: Let_def e_def c_def prev'_def)
    have "nat (int (length txt) - e) < nat (int (length txt) - pos)"
      using b True by simp
    moreover have "0 \<le> e" using b less.prems by simp
    ultimately obtain cs where cs:
      "chunk_loop txt m ov e prev' (chunks @ [c]) = Some ((chunks @ [c]) @ cs)"
      "concat (map text_of cs) = drop (nat e) txt"
      "\<forall>c \<in> set cs. chunk_ok txt m ov c"
      using less.hyps[of e prev' "chunks @ [c]"] by blast
    have ok: "chunk_ok txt m ov c"
      unfolding c_def e_def by (rule mk_chunk_ok[OF assms(1,2) less.prems True])
    have "text_of c = take (nat e - nat pos) (drop (nat pos) txt)"
      using b less.prems by (simp add: c_def mk_chunk_def substring_take_drop nat_diff_distrib)
    moreover have "nat pos \<le> nat e" using b by simp
    ultimately have "text_of c @ drop (nat e) txt = drop (nat pos) txt"
      by (simp only: take_drop_glue)
    with cs ok step have
      "chunk_loop txt m ov pos prev chunks = Some (chunks @ (c # cs))
       \<and> concat (map text_of (c # cs)) = drop (nat pos) txt
       \<and> (\<forall>c \<in> set (c # cs). chunk_ok txt m ov c)"
      by simp
    then show ?thesis by blast
  qed
qed

section \<open>Partition, termination and size of the chunks\<close>

lemma text_of_set_total [simp]: "text_of (set_total n c) = text_of c"
  by (simp add: set_total_def)

lemma chunkTextSmart_run:
  assumes "1 \<le> m" "0 \<le> ov" "int (length txt) > m"
  shows "\<exists>cs. chunkTextSmart txt m ov = Some (map (set_total (length cs)) cs)
           \<and> concat (map text_of cs) = txt
           \<and> (\<forall>c \<in> set cs. chunk_ok txt m ov c)"
proof -
  from chunk_loop_run[OF assms(1,2), of 0 "txt" "[]" "[]"]
  obtain cs where cs: "chunk_loop txt m ov 0 [] [] = Some cs"
    "concat (map text_of cs) = txt" "\<forall>c \<in> set cs. chunk_ok txt m ov c"
    by auto
  with assms(3) have "chunkTextSmart txt m ov = Some (map (set_total (length cs)) cs)"
    by (simp add: chunkTextSmart_def)
  with cs show ?thesis by blast
qed

text \<open>
  Claim C1 (partition invariant). For every text, the empty one and those no longer than
  \<open>maxChunkSize\<close> included, and every \<open>maxChunkSize > 0\<close> and \<open>overlapSize \<ge> 0\<close>,
  \<^verbatim>\<open>chunkTextSmart\<close> returns, and the \<open>text\<close> fields of its chunks, concatenated in
  index order, are the input text.
\<close>

theorem partition_invariant:
  assumes "0 < maxChunkSize" "0 \<le> overlapSize"
  shows "\<exists>chunks. chunkTextSmart txt maxChunkSize overlapSize = Some chunks
           \<and> concat (map text_of chunks) = txt"
proof (cases "int (length txt) \<le> maxChunkSize")
  case True
  then show ?thesis by (simp add: chunkTextSmart_def)
next
  case False
  with assms chunkTextSmart_run[of maxChunkSize overlapSize "txt"]
  obtain cs where "chunkTextSmart txt maxChunkSize overlapSize = Some (map (set_total (length cs)) cs)"
    "concat (map text_of cs) = txt"
    by auto
  then show ?thesis by (simp add: comp_def)
qed

theorem partition_invariant_witness:
  "\<exists>chunks. chunkTextSmart (js ''abcde'') 2 0 = Some chunks
           \<and> concat (map text_of chunks) = js ''abcde''"
  using partition_invariant[of 2 0 "js ''abcde''"] by simp

text \<open>
  Claim C9 (termination of the splitter). For every text, every \<open>maxChunkSize \<ge> 1\<close> and
  every \<open>overlapSize \<ge> 0\<close>, \<^verbatim>\<open>chunkTextSmart\<close> returns: every iteration of the loop,
  entered at a position inside the text, chooses a \<open>chunkEnd\<close> strictly beyond the
  position and not beyond the end of the text, so the loop returns from every state it can
  reach, every chunk it emits is non-empty, and each chunk ends after it starts.
\<close>

theorem splitter_terminates:
  assumes "1 \<le> maxChunkSize" "0 \<le> overlapSize"
  shows "(\<exists>chunks. chunkTextSmart txt maxChunkSize overlapSize = Some chunks)
       \<and> (\<forall>position. 0 \<le> position \<and> position < int (length txt) \<longrightarrow>
              position < chunkEnd_of txt maxChunkSize overlapSize position
            \<and> chunkEnd_of txt maxChunkSize overlapSize position \<le> int (length txt))
       \<and> (\<forall>position previousOverlap chunks. 0 \<le> position \<longrightarrow>
             (\<exists>cs. chunk_loop txt maxChunkSize overlapSize position previousOverlap chunks
                     = Some (chunks @ cs)
                 \<and> (\<forall>c \<in> set cs. text_of c \<noteq> []
                       \<and> startPosition (metadata c) < endPosition (metadata c))))"
proof (intro conjI allI impI)
  show "\<exists>chunks. chunkTextSmart txt maxChunkSize overlapSize = Some chunks"
  proof (cases "int (length txt) \<le> maxChunkSize")
    case True
    then show ?thesis by (simp add: chunkTextSmart_def)
  next
    case False
    with assms chunkTextSmart_run[of maxChunkSize overlapSize "txt"] show ?thesis by auto
  qed
next
  fix position assume "0 \<le> position \<and> position < int (length txt)"
  then have p: "0 \<le> position" "position < int (length txt)" by simp_all
  from chunkEnd_of_bounds(1)[OF assms p]
  show "position < chunkEnd_of txt maxChunkSize overlapSize position" .
  from chunkEnd_of_bounds(2)[OF assms p]
  show "chunkEnd_of txt maxChunkSize overlapSize position \<le> int (length txt)" .
next
  fix position :: int and previousOverlap chunks
  assume p: "0 \<le> position"
  from chunk_loop_run[OF assms p, of "txt" previousOverlap chunks]
  obtain cs where
    "chunk_loop txt maxChunkSize overlapSize position previousOverlap chunks = Some (chunks @ cs)"
    "\<forall>c \<in> set cs. chunk_ok txt maxChunkSize overlapSize c"
    by blast
  then show "\<exists>cs. chunk_loop txt maxChunkSize overlapSize position previousOverlap chunks
                 = Some (chunks @ cs)
               \<and> (\<forall>c \<in> set cs. text_of c \<noteq> []
                     \<and> startPosition (metadata c) < endPosition (metadata c))"
    by (auto simp: chunk_ok_def)
qed

theorem splitter_terminates_witness:
  "(\<exists>chunks. chunkTextSmart (js ''abcde'') 2 0 = Some chunks)
   \<and> (0::int) < chunkEnd_of (js ''abcde'') 2 0 0
   \<and> (\<exists>cs. chunk_loop (js ''abcde'') 2 0 0 [] [] = Some cs
          \<and> (\<forall>c \<in> set cs. text_of c \<noteq> []))"
proof -
  have h: "(1::int) \<le> 2" "(0::int) \<le> 0" by simp_all
  have l: "(0::int) \<le> 0 \<and> 0 < int (length (js ''abcde''))" by (simp add: js_def)
  note t = splitter_terminates[OF h, of "js ''abcde''"]
  from t have a: "\<exists>chunks. chunkTextSmart (js ''abcde'') 2 0 = Some chunks" by blast
  from t l have b: "(0::int) < chunkEnd_of (js ''abcde'') 2 0 0" by blast
  from t have "\<exists>cs. chunk_loop (js ''abcde'') 2 0 0 [] [] = Some ([] @ cs)
          \<and> (\<forall>c \<in> set cs. text_of c \<noteq> []
                       \<and> startPosition (metadata c) < endPosition (metadata c))"
    by blast
  then have c: "\<exists>cs. chunk_loop (js ''abcde'') 2 0 0 [] [] = Some cs
          \<and> (\<forall>c \<in> set cs. text_of c \<noteq> [])" by auto
  from a b c show ?thesis by blast
qed

text \<open>
  Claim C4, as amended (chunk size bound). For every text and every \<open>maxChunkSize > 0\<close>,
  \<open>overlapSize \<ge> 0\<close>, no chunk is longer than \<open>maxChunkSize + max overlapSize 2000\<close>:
  the absorbed tail is bounded by \<open>maxChunkSize + overlapSize\<close>, a cut at a break by the
  end of the search window, \<open>maxChunkSize + 2000\<close>.
\<close>

theorem chunk_size_bound_window:
  assumes "0 < maxChunkSize" "0 \<le> overlapSize"
    and "chunkTextSmart txt maxChunkSize overlapSize = Some chunks"
    and "c \<in> set chunks"
  shows "int (length (text_of c)) \<le> maxChunkSize + max overlapSize 2000"
proof (cases "int (length txt) \<le> maxChunkSize")
  case True
  with assms(3,4) have "text_of c = txt" by (auto simp: chunkTextSmart_def)
  with True assms(2) show ?thesis by simp
next
  case False
  with assms(1,2) chunkTextSmart_run[of maxChunkSize overlapSize "txt"]
  obtain cs where cs: "chunkTextSmart txt maxChunkSize overlapSize = Some (map (set_total (length cs)) cs)"
    "\<forall>c \<in> set cs. chunk_ok txt maxChunkSize overlapSize c"
    by auto
  with assms(3,4) obtain c' where c': "c' \<in> set cs" "c = set_total (length cs) c'" by auto
  with cs(2) have "chunk_ok txt maxChunkSize overlapSize c'" by blast
  then have "int (length (text_of c')) \<le> maxChunkSize + max overlapSize 2000"
    unfolding chunk_ok_def by blast
  with c'(2) show ?thesis by simp
qed

section \<open>The overlap search of the merger\<close>

lemma indexOf_ge0_iff: "(0 \<le> indexOf s pat) = sublist pat s"
proof
  assume "0 \<le> indexOf s pat"
  then obtain k ks where "filter (\<lambda>k. prefix pat (drop k s)) [0..<Suc (length s)] = k # ks"
    by (cases "filter (\<lambda>k. prefix pat (drop k s)) [0..<Suc (length s)]")
       (simp_all add: indexOf_def)
  from filter_upt_hd[OF this] have "prefix pat (drop k s)" by simp
  then obtain ss where "drop k s = pat @ ss" by (auto simp: prefix_def)
  then have "s = take k s @ pat @ ss" by (metis append_take_drop_id)
  then show "sublist pat s" unfolding sublist_def by blast
next
  assume "sublist pat s"
  then obtain ps ss where s: "s = ps @ pat @ ss" unfolding sublist_def by blast
  then have p: "prefix pat (drop (length ps) s)" and l: "length ps < Suc (length s)" by simp_all
  have "filter (\<lambda>k. prefix pat (drop k s)) [0..<Suc (length s)] \<noteq> []"
  proof
    assume "filter (\<lambda>k. prefix pat (drop k s)) [0..<Suc (length s)] = []"
    then have "\<forall>k \<in> set [0..<Suc (length s)]. \<not> prefix pat (drop k s)"
      by (simp only: filter_empty_conv)
    moreover have "length ps \<in> set [0..<Suc (length s)]" using l by auto
    ultimately show False using p by blast
  qed
  then obtain k ks where "filter (\<lambda>k. prefix pat (drop k s)) [0..<Suc (length s)] = k # ks"
    by (cases "filter (\<lambda>k. prefix pat (drop k s)) [0..<Suc (length s)]") simp_all
  then show "0 \<le> indexOf s pat" by (simp add: indexOf_def)
qed

lemma find_overlap_range: "find_overlap me cs j = 0 \<or> (50 < find_overlap me cs j \<and> find_overlap me cs j \<le> j)"
proof (induction j)
  case 0
  then show ?case by (simp add: find_overlap.simps)
next
  case (Suc j)
  then show ?case by (subst (1 2 3) find_overlap.simps) auto
qed

lemma find_overlap_hit:
  "find_overlap me cs j \<noteq> 0 \<Longrightarrow>
   sublist (substring_from me (int (length me) - int (find_overlap me cs j))) cs"
proof (induction j)
  case 0
  then show ?case by (simp add: find_overlap.simps)
next
  case (Suc j)
  show ?case
  proof (cases "50 < Suc j \<and> 0 \<le> indexOf cs (substring_from me (int (length me) - int (Suc j)))")
    case True
    then have "find_overlap me cs (Suc j) = Suc j" by (subst find_overlap.simps) simp
    with True show ?thesis by (simp only: indexOf_ge0_iff)
  next
    case False
    then have e: "find_overlap me cs (Suc j) = (if 50 < Suc j then find_overlap me cs j else 0)"
      by (subst find_overlap.simps) auto
    with Suc.prems have "find_overlap me cs j \<noteq> 0" by (auto split: if_splits)
    from Suc.IH[OF this] e Suc.prems show ?thesis by (auto split: if_splits)
  qed
qed

lemma find_overlap_greatest:
  "50 < r \<Longrightarrow> r \<le> j \<Longrightarrow> sublist (substring_from me (int (length me) - int r)) cs \<Longrightarrow>
   r \<le> find_overlap me cs j"
proof (induction j)
  case 0
  then show ?case by simp
next
  case (Suc j)
  show ?case
  proof (cases "0 \<le> indexOf cs (substring_from me (int (length me) - int (Suc j)))")
    case True
    with Suc.prems have "find_overlap me cs (Suc j) = Suc j" by (subst find_overlap.simps) simp
    with Suc.prems show ?thesis by simp
  next
    case False
    with Suc.prems have "r \<noteq> Suc j" by (auto simp: indexOf_ge0_iff)
    with Suc.prems have rj: "r \<le> j" by simp
    from False Suc.prems have "find_overlap me cs (Suc j) = find_overlap me cs j"
      by (subst find_overlap.simps) auto
    with Suc.IH[OF Suc.prems(1) rj Suc.prems(3)] show ?thesis by simp
  qed
qed

lemma substring_from_drop:
  "0 \<le> a \<Longrightarrow> a \<le> int (length s) \<Longrightarrow> substring_from s a = drop (nat a) s"
  by (simp add: substring_from_def substring_take_drop)

lemma mergedEnd_eq:
  "substring_from acc (max 0 (int (length acc) - 500)) = drop (length acc - 500) acc"
proof -
  have "nat (max 0 (int (length acc) - 500)) = length acc - 500" by simp
  moreover have "substring_from acc (max 0 (int (length acc) - 500))
        = drop (nat (max 0 (int (length acc) - 500))) acc"
    by (rule substring_from_drop) simp_all
  ultimately show ?thesis by simp
qed

lemma currentStart_eq:
  "substring cur 0 (min 500 (int (length cur))) = take 500 cur"
proof -
  have "substring cur 0 (min 500 (int (length cur)))
        = take (nat (min 500 (int (length cur)) - 0)) (drop (nat 0) cur)"
    by (rule substring_take_drop) simp_all
  also have "\<dots> = take (min 500 (length cur)) cur" by (simp add: min_def)
  finally show ?thesis by (simp add: min_def)
qed

lemma snippet_eq:
  assumes "r \<le> min 200 (length acc)"
  shows "substring_from (drop (length acc - 500) acc)
           (int (length (drop (length acc - 500) acc)) - int r) = drop (length acc - r) acc"
proof -
  let ?me = "drop (length acc - 500) acc"
  have l: "length ?me = min 500 (length acc)" by (simp add: min_def)
  with assms have r: "r \<le> length ?me" by simp
  then have "substring_from ?me (int (length ?me) - int r) = drop (nat (int (length ?me) - int r)) ?me"
    by (intro substring_from_drop) simp_all
  also have "nat (int (length ?me) - int r) = length ?me - r" by simp
  also have "drop (length ?me - r) ?me = drop (length ?me - r + (length acc - 500)) acc"
    by (simp only: drop_drop)
  also have "length ?me - r + (length acc - 500) = length acc - r"
    using assms l by (simp add: min_def split: if_splits)
  finally show ?thesis .
qed

lemma bestOverlap_of_eq:
  "bestOverlap_of acc cur =
     find_overlap (drop (length acc - 500) acc) (take 500 cur) (min 200 (length acc))"
proof -
  have "nat (min 200 (int (length (drop (length acc - 500) acc)))) = min 200 (length acc)"
    by (simp add: min_def) linarith
  then show ?thesis
    by (simp only: bestOverlap_of_def Let_def mergedEnd_eq currentStart_eq)
qed

lemma bestOverlap_range:
  "bestOverlap_of acc cur = 0
   \<or> (50 < bestOverlap_of acc cur \<and> bestOverlap_of acc cur \<le> min 200 (length acc))"
  unfolding bestOverlap_of_eq by (rule find_overlap_range)

lemma bestOverlap_hit:
  assumes "bestOverlap_of acc cur \<noteq> 0"
  shows "sublist (drop (length acc - bestOverlap_of acc cur) acc) (take 500 cur)"
proof -
  from bestOverlap_range[of acc cur] assms
  have r: "bestOverlap_of acc cur \<le> min 200 (length acc)" by simp
  from assms have "find_overlap (drop (length acc - 500) acc) (take 500 cur)
                     (min 200 (length acc)) \<noteq> 0"
    unfolding bestOverlap_of_eq .
  from find_overlap_hit[OF this]
  have "sublist (substring_from (drop (length acc - 500) acc)
           (int (length (drop (length acc - 500) acc)) - int (bestOverlap_of acc cur)))
         (take 500 cur)"
    unfolding bestOverlap_of_eq .
  then show ?thesis by (simp only: snippet_eq[OF r])
qed

lemma bestOverlap_greatest:
  assumes "50 < r" "r \<le> min 200 (length acc)"
    and "sublist (drop (length acc - r) acc) (take 500 cur)"
  shows "r \<le> bestOverlap_of acc cur"
proof -
  from assms(3) have "sublist (substring_from (drop (length acc - 500) acc)
           (int (length (drop (length acc - 500) acc)) - int r)) (take 500 cur)"
    by (simp only: snippet_eq[OF assms(2)])
  from find_overlap_greatest[OF assms(1,2) this] show ?thesis
    unfolding bestOverlap_of_eq .
qed

lemma merge_step_hit:
  assumes "bestOverlap_of acc cur \<noteq> 0"
  shows "merge_step acc cur = take (length acc - bestOverlap_of acc cur) acc @ cur"
proof -
  from bestOverlap_range[of acc cur] assms
  have r: "bestOverlap_of acc cur \<le> length acc" by simp
  then have "substring acc 0 (int (length acc) - int (bestOverlap_of acc cur))
        = take (nat (int (length acc) - int (bestOverlap_of acc cur) - 0)) (drop (nat 0) acc)"
    by (intro substring_take_drop) simp_all
  also have "\<dots> = take (length acc - bestOverlap_of acc cur) acc"
    using r by (simp add: nat_diff_distrib)
  finally show ?thesis using assms by (simp add: merge_step_def Let_def)
qed

lemma merge_step_miss:
  assumes "bestOverlap_of acc cur = 0"
  shows "merge_step acc cur =
           (if \<not> endsWith acc [NL] \<and> \<not> startsWith cur [NL]
              \<and> \<not> endsWith acc [SP] \<and> \<not> startsWith cur [SP]
            then acc @ [SP] @ cur else acc @ cur)"
  using assms by (simp add: merge_step_def Let_def)

lemma merge_step_length:
  "int (length acc) + int (length cur) - 200 \<le> int (length (merge_step acc cur))"
  "int (length (merge_step acc cur)) \<le> int (length acc) + int (length cur) + 1"
proof -
  have "int (length acc) + int (length cur) - 200 \<le> int (length (merge_step acc cur))
      \<and> int (length (merge_step acc cur)) \<le> int (length acc) + int (length cur) + 1"
  proof (cases "bestOverlap_of acc cur = 0")
    case True
    from merge_step_miss[OF True] show ?thesis by (simp split: if_splits)
  next
    case False
    from bestOverlap_range[of acc cur] False
    have "bestOverlap_of acc cur \<le> 200" "bestOverlap_of acc cur \<le> length acc" by simp_all
    with merge_step_hit[OF False] show ?thesis by simp
  qed
  then show "int (length acc) + int (length cur) - 200 \<le> int (length (merge_step acc cur))"
    "int (length (merge_step acc cur)) \<le> int (length acc) + int (length cur) + 1"
    by simp_all
qed

lemma foldl_merge_length:
  "int (length x) + int (sum_list (map length rest)) - 200 * int (length rest)
     \<le> int (length (foldl merge_step x rest))
   \<and> int (length (foldl merge_step x rest))
     \<le> int (length x) + int (sum_list (map length rest)) + int (length rest)"
proof (induction rest arbitrary: x)
  case Nil
  then show ?case by simp
next
  case (Cons c rest)
  from Cons.IH[of "merge_step x c"] merge_step_length[of x c]
  show ?case by simp
qed

lemma mergeEditedChunks_foldl:
  "mergeEditedChunks (x # rest) = foldl merge_step x rest"
  by (cases rest) (simp_all add: mergeEditedChunks_def)

text \<open>
  Claim C10 (length bounds of the merge). For every non-empty list of \<open>k\<close> edited texts,
  the length of \<^verbatim>\<open>mergeEditedChunks\<close> of the list is at least the sum of the input
  lengths minus \<open>200 (k - 1)\<close> and at most that sum plus \<open>k - 1\<close>: each boundary step
  removes at most 200 characters from the end of the accumulator, inserts at most one
  space, and always ends with the appended text in full; when no overlap is found the
  accumulator is kept whole.
\<close>

theorem merge_length_bounds:
  assumes "editedChunks \<noteq> []"
  shows "int (sum_list (map length editedChunks)) - 200 * (int (length editedChunks) - 1)
           \<le> int (length (mergeEditedChunks editedChunks))
       \<and> int (length (mergeEditedChunks editedChunks))
           \<le> int (sum_list (map length editedChunks)) + (int (length editedChunks) - 1)
       \<and> (\<forall>merged currentChunk.
             int (length merged) + int (length currentChunk) - 200
               \<le> int (length (merge_step merged currentChunk))
           \<and> int (length (merge_step merged currentChunk))
               \<le> int (length merged) + int (length currentChunk) + 1
           \<and> (bestOverlap_of merged currentChunk = 0 \<longrightarrow>
                 suffix currentChunk (merge_step merged currentChunk)
               \<and> prefix merged (merge_step merged currentChunk))
           \<and> suffix currentChunk (merge_step merged currentChunk))"
proof -
  from assms obtain x rest where e: "editedChunks = x # rest" by (cases editedChunks) auto
  from foldl_merge_length[of x rest]
  have a: "int (sum_list (map length editedChunks)) - 200 * (int (length editedChunks) - 1)
           \<le> int (length (mergeEditedChunks editedChunks))
       \<and> int (length (mergeEditedChunks editedChunks))
           \<le> int (sum_list (map length editedChunks)) + (int (length editedChunks) - 1)"
    by (simp add: e mergeEditedChunks_foldl)
  have b: "suffix c (merge_step m c) \<and> (bestOverlap_of m c = 0 \<longrightarrow> prefix m (merge_step m c))" for m c
  proof (cases "bestOverlap_of m c = 0")
    case True
    from merge_step_miss[OF True] show ?thesis by (simp add: suffix_def split: if_splits)
  next
    case False
    from merge_step_hit[OF False] False show ?thesis by (simp add: suffix_def)
  qed
  from a b merge_step_length show ?thesis by blast
qed

theorem merge_length_bounds_witness:
  "int (sum_list (map length [js ''ab'', js ''cd''])) - 200 * (int (length [js ''ab'', js ''cd'']) - 1)
     \<le> int (length (mergeEditedChunks [js ''ab'', js ''cd'']))
   \<and> int (length (mergeEditedChunks [js ''ab'', js ''cd'']))
     \<le> int (sum_list (map length [js ''ab'', js ''cd''])) + (int (length [js ''ab'', js ''cd'']) - 1)"
  using merge_length_bounds[of "[js ''ab'', js ''cd'']"] by simp

lemma take_min_length: "take (min n (length xs)) xs = take n xs"
  by (simp add: min_def)

lemma bestOverlap_detected: "(bestOverlap_of acc cur \<noteq> 0) = overlap_detected 500 acc cur"
proof
  assume n: "bestOverlap_of acc cur \<noteq> 0"
  with bestOverlap_range[of acc cur]
  have "bestOverlap_of acc cur \<in> set [51..<Suc (min 200 (length acc))]" by auto
  with bestOverlap_hit[OF n] show "overlap_detected 500 acc cur"
    unfolding overlap_detected_def take_min_length by blast
next
  assume "overlap_detected 500 acc cur"
  then obtain j where j: "j \<in> set [51..<Suc (min 200 (length acc))]"
    "sublist (drop (length acc - j) acc) (take 500 cur)"
    unfolding overlap_detected_def take_min_length by blast
  then have "50 < j" "j \<le> min 200 (length acc)" by auto
  from bestOverlap_greatest[OF this j(2)] \<open>50 < j\<close> show "bestOverlap_of acc cur \<noteq> 0" by simp
qed

text \<open>
  Claim C7, as amended (overlap search windows). At each merge boundary an overlap is
  detected if and only if, for some length \<open>j\<close> from \<open>min 200 (length acc)\<close> down to 51,
  the last \<open>j\<close> characters of the accumulator occur in the leading
  \<open>min 500 (length current)\<close> characters of \<open>current\<close>; at the longest such \<open>j\<close> exactly
  \<open>j\<close> characters are cut off the end of the accumulator and \<open>current\<close> is appended in
  full.
\<close>

theorem merge_overlap_search:
  "(bestOverlap_of acc cur \<noteq> 0) = overlap_detected 500 acc cur
   \<and> (\<forall>j. 50 < j \<and> j \<le> min 200 (length acc)
          \<and> sublist (drop (length acc - j) acc) (take (min 500 (length cur)) cur)
          \<and> (\<forall>j'. j < j' \<and> j' \<le> min 200 (length acc) \<longrightarrow>
                 \<not> sublist (drop (length acc - j') acc) (take (min 500 (length cur)) cur))
        \<longrightarrow> bestOverlap_of acc cur = j
          \<and> merge_step acc cur = take (length acc - j) acc @ cur)"
proof (intro conjI allI impI)
  show "(bestOverlap_of acc cur \<noteq> 0) = overlap_detected 500 acc cur"
    by (rule bestOverlap_detected)
next
  fix j
  assume a: "50 < j \<and> j \<le> min 200 (length acc)
          \<and> sublist (drop (length acc - j) acc) (take (min 500 (length cur)) cur)
          \<and> (\<forall>j'. j < j' \<and> j' \<le> min 200 (length acc) \<longrightarrow>
                 \<not> sublist (drop (length acc - j') acc) (take (min 500 (length cur)) cur))"
  then have j: "50 < j" "j \<le> min 200 (length acc)"
    "sublist (drop (length acc - j) acc) (take 500 cur)"
    and top: "\<And>j'. j < j' \<Longrightarrow> j' \<le> min 200 (length acc) \<Longrightarrow>
                 \<not> sublist (drop (length acc - j') acc) (take 500 cur)"
    unfolding take_min_length by blast+
  from bestOverlap_greatest[OF j] have ge: "j \<le> bestOverlap_of acc cur" .
  with j(1) have nz: "bestOverlap_of acc cur \<noteq> 0" by simp
  with bestOverlap_range[of acc cur] have "bestOverlap_of acc cur \<le> min 200 (length acc)" by simp
  with top[of "bestOverlap_of acc cur"] bestOverlap_hit[OF nz] ge
  show b: "bestOverlap_of acc cur = j" by (cases "j < bestOverlap_of acc cur") auto
  from merge_step_hit[OF nz] b show "merge_step acc cur = take (length acc - j) acc @ cur" by simp
qed

lemma not_sublist_absent: "c \<in> set pat \<Longrightarrow> c \<notin> set s \<Longrightarrow> \<not> sublist pat s"
  using set_mono_sublist by fastforce

theorem merge_overlap_search_witness:
  "bestOverlap_of (120 # replicate 51 97) (replicate 51 97 @ [121]) = 51
   \<and> merge_step (120 # replicate 51 97) (replicate 51 97 @ [121]) = 120 # replicate 51 97 @ [121]"
proof -
  let ?acc = "120 # replicate 51 (97::jschar)"
  let ?cur = "replicate 51 (97::jschar) @ [121]"
  have drop1: "drop (length ?acc - 51) ?acc = replicate 51 97" by simp
  have tk: "take (min 500 (length ?cur)) ?cur = ?cur" by simp
  have s1: "sublist (drop (length ?acc - 51) ?acc) (take (min 500 (length ?cur)) ?cur)"
    unfolding drop1 tk by (rule prefix_imp_sublist) simp
  have s2: "\<not> sublist (drop (length ?acc - j') ?acc) (take (min 500 (length ?cur)) ?cur)"
    if "51 < j'" "j' \<le> min 200 (length ?acc)" for j'
  proof -
    from that have "j' = 52" by simp
    then have "drop (length ?acc - j') ?acc = ?acc" by simp
    moreover have "\<not> sublist ?acc ?cur"
      by (rule not_sublist_absent[of 120]) simp_all
    ultimately show ?thesis unfolding tk by simp
  qed
  note t = merge_overlap_search[of ?acc ?cur, THEN conjunct2, rule_format, of 51]
  have "bestOverlap_of ?acc ?cur = 51 \<and> merge_step ?acc ?cur = take (length ?acc - 51) ?acc @ ?cur"
  proof (rule t, intro conjI allI impI)
    show "50 < (51::nat)" by simp
    show "51 \<le> min 200 (length ?acc)" by simp
    show "sublist (drop (length ?acc - 51) ?acc) (take (min 500 (length ?cur)) ?cur)" by (rule s1)
    fix j' assume "51 < j' \<and> j' \<le> min 200 (length ?acc)"
    then show "\<not> sublist (drop (length ?acc - j') ?acc) (take (min 500 (length ?cur)) ?cur)"
      using s2 by blast
  qed
  then show ?thesis by simp
qed

text \<open>
  With a leading window of 200 characters, as claim C7 words it, the equivalence fails: a
  51-character end of the accumulator that starts at index 200 of \<open>current\<close> lies inside
  the 500-character window the source searches and outside the first 200 characters.
\<close>

theorem merge_window_200_counterexample:
  "bestOverlap_of (replicate 51 97) (replicate 200 98 @ replicate 51 97) = 51
   \<and> merge_step (replicate 51 97) (replicate 200 98 @ replicate 51 97)
       = replicate 200 98 @ replicate 51 97
   \<and> \<not> overlap_detected 200 (replicate 51 97) (replicate 200 98 @ replicate 51 97)"
proof -
  let ?acc = "replicate 51 (97::jschar)"
  let ?cur = "replicate 200 (98::jschar) @ replicate 51 (97::jschar)"
  have "sublist (drop (length ?acc - 51) ?acc) (take 500 ?cur)" by simp
  from bestOverlap_greatest[OF _ _ this] have "51 \<le> bestOverlap_of ?acc ?cur" by simp
  moreover from bestOverlap_range[of ?acc ?cur] have "bestOverlap_of ?acc ?cur \<le> 51" by auto
  ultimately have b: "bestOverlap_of ?acc ?cur = 51" by simp
  then have "bestOverlap_of ?acc ?cur \<noteq> 0" by simp
  from merge_step_hit[OF this] b have m: "merge_step ?acc ?cur = ?cur" by simp
  have "\<not> sublist ?acc (replicate 200 98)"
    by (rule not_sublist_absent[of 97]) simp_all
  then have "\<not> overlap_detected 200 ?acc ?cur"
    by (simp add: overlap_detected_def)
  with b m show ?thesis by blast
qed

lemma bestOverlap_short: "length acc \<le> 50 \<Longrightarrow> bestOverlap_of acc cur = 0"
  using bestOverlap_range[of acc cur] by auto

lemma endsWith_single: "endsWith s [c] = (s \<noteq> [] \<and> last s = c)"
  by (cases s rule: rev_cases) (auto simp: endsWith_def)

lemma startsWith_single: "startsWith s [c] = (s \<noteq> [] \<and> hd s = c)"
  by (cases s) (auto simp: startsWith_def)






section \<open>The validator and the empty text\<close>

lemma to_double_simps: "to_double 0 = 0" "to_double 1 = 1" "to_double 100 = 100"
  by (simp_all add: to_double_def binade_def bit_length.simps round_even_def Let_def)

text \<open>Two known doubles, and a rounding that decides the verdict of the validator.\<close>

lemma to_double_tenth: "to_double (1 / 10) = 3602879701896397 / 36028797018963968"
  by code_simp

lemma to_double_third: "to_double (1 / 3) = 6004799503160661 / 18014398509481984"
  by code_simp

lemma validator_rounds_up:
  "isValid (validateEditedLength (js ''a a a a a a a a a a'') (js ''a a a a a a a a a a a'') 10)
     = False"
  by code_simp

lemma countWords_values: "countWords [] = 0" "countWords (js ''word'') = 1"
  by (simp_all add: countWords_def trim_def js_def is_ws_def)

text \<open>
  Claim C3 (validator, empty original), on the code. For an empty original and the edited
  text \<open>word\<close> the validator counts one piece on each side, the empty text being split
  into one empty piece that is not dropped: the report is \<open>isValid = true\<close> with
  \<open>ratio = 100\<close>, where the claim has \<open>isValid = false\<close>. The sibling \<^verbatim>\<open>countWords\<close>
  counts no word in the empty text.
\<close>

theorem validate_empty_vs_word:
  "isValid (validateEditedLength [] (js ''word'') 10) = True
   \<and> ratio (validateEditedLength [] (js ''word'') 10) = Finite 100
   \<and> originalLength (validateEditedLength [] (js ''word'') 10) = 1
   \<and> editedLength (validateEditedLength [] (js ''word'') 10) = 1
   \<and> countWords [] = 0"
  by (simp add: validateEditedLength_def Let_def trim_def js_div_def js_def is_ws_def
      to_double_simps countWords_values)

section \<open>Single passes of the loop, and runs that never return\<close>

lemma set_substring_subset: "set (substring s a b) \<subseteq> set s"
proof -
  have "set (take n (drop k s)) \<subseteq> set s" for n k
    by (meson set_take_subset set_drop_subset subset_trans)
  then show ?thesis unfolding substring_def Let_def by blast
qed

lemma lastIndexOf_absent:
  assumes "c \<in> set pat" "c \<notin> set w"
  shows "lastIndexOf w pat = -1"
proof -
  have "\<not> prefix pat (drop k w)" for k
  proof
    assume "prefix pat (drop k w)"
    then have "set pat \<subseteq> set (drop k w)" by (rule set_mono_prefix)
    with set_drop_subset[of k w] assms show False by blast
  qed
  with lastIndexOf_cases[of w pat] show ?thesis by blast
qed

lemma chunkEnd_of_tail:
  "int (length txt) - pos \<le> m + ov \<Longrightarrow> chunkEnd_of txt m ov pos = int (length txt)"
  by (simp add: chunkEnd_of_def)

lemma chunkEnd_of_hard:
  assumes "\<not> int (length txt) - pos \<le> m + ov"
    and "NL \<notin> set (substring txt (max (pos + m - 2000) pos) (min (pos + m + 2000) (int (length txt))))"
    and "SP \<notin> set (substring txt (max (pos + m - 2000) pos) (min (pos + m + 2000) (int (length txt))))"
  shows "chunkEnd_of txt m ov pos = pos + m"
proof -
  let ?w = "substring txt (max (pos + m - 2000) pos) (min (pos + m + 2000) (int (length txt)))"
  have p: "paragraphBreaks ?w = [-1, -1, -1, -1, -1, -1]"
    using assms(2) by (simp add: paragraphBreaks_def lastIndexOf_absent[of NL])
  have s: "sentenceBreaks ?w = [-1, -1, -1, -1]"
    using assms(3) by (simp add: sentenceBreaks_def lastIndexOf_absent[of SP])
  show ?thesis using assms(1) by (simp add: chunkEnd_of_def Let_def p s Math_max_def)
qed

lemma chunk_loop_done:
  "\<not> pos < int (length txt) \<Longrightarrow> chunk_loop txt m ov pos prev chunks = Some chunks"
  by (subst chunk_loop.simps) simp

lemma chunk_loop_step:
  "pos < int (length txt) \<Longrightarrow> chunkEnd_of txt m ov pos = e \<Longrightarrow>
   chunk_loop txt m ov pos prev chunks =
     chunk_loop txt m ov e
       (substring_from (substring txt pos e) (max 0 (int (length (substring txt pos e)) - ov)))
       (chunks @ [mk_chunk txt ov pos prev (length chunks) e])"
  by (subst chunk_loop.simps) (simp add: Let_def)

lemma chunk_loop_stuck:
  assumes "pos < int (length txt)" "chunkEnd_of txt m ov pos = pos"
  shows "chunk_loop txt m ov pos prev chunks = None"
proof -
  have "\<not> (t = txt \<and> m' = m \<and> ov' = ov \<and> p = pos)"
    if run: "chunk_loop t m' ov' p pr cs = Some y" for t m' ov' p pr cs y
  proof (rule chunk_loop.raw_induct[where P = "\<lambda>t m' ov' p pr cs y.
            \<not> (t = txt \<and> m' = m \<and> ov' = ov \<and> p = pos)", OF _ run])
    fix loop :: "jsstring \<Rightarrow> int \<Rightarrow> int \<Rightarrow> int \<Rightarrow> jsstring \<Rightarrow> SmartChunk list
                  \<Rightarrow> SmartChunk list option"
    fix t m' ov' p pr cs y
    assume IH: "\<And>t m' ov' p pr cs y. loop t m' ov' p pr cs = Some y \<Longrightarrow>
                 \<not> (t = txt \<and> m' = m \<and> ov' = ov \<and> p = pos)"
    assume body: "(if p < int (length t)
        then let chunkEnd = chunkEnd_of t m' ov' p; chunkText = substring t p chunkEnd
             in loop t m' ov' chunkEnd
                  (substring_from chunkText (max 0 (int (length chunkText) - ov')))
                  (cs @ [mk_chunk t ov' p pr (length cs) chunkEnd])
        else Some cs) = Some y"
    show "\<not> (t = txt \<and> m' = m \<and> ov' = ov \<and> p = pos)"
    proof
      assume eq: "t = txt \<and> m' = m \<and> ov' = ov \<and> p = pos"
      with body assms obtain pr' cs' where "loop txt m ov pos pr' cs' = Some y"
        by (simp add: Let_def)
      from IH[OF this] show False by simp
    qed
  qed
  then have "chunk_loop txt m ov pos prev chunks \<noteq> Some y" for y by blast
  then show ?thesis by (cases "chunk_loop txt m ov pos prev chunks") blast+
qed

lemma chunkTextSmart_zero_diverges:
  assumes "0 \<le> overlapSize" "overlapSize < int (length txt)" "NL \<notin> set txt" "SP \<notin> set txt"
  shows "chunkTextSmart txt 0 overlapSize = None"
proof -
  from assms(2) have n: "\<not> int (length txt) - 0 \<le> 0 + overlapSize" by simp
  have "chunkEnd_of txt 0 overlapSize 0 = 0 + 0"
    using assms(3,4) set_substring_subset[of "txt"]
    by (intro chunkEnd_of_hard[OF n]) blast+
  moreover have p: "0 < int (length txt)" using assms(1,2) by linarith
  ultimately have "chunk_loop txt 0 overlapSize 0 [] [] = None"
    by (intro chunk_loop_stuck) simp_all
  with p show ?thesis by (simp add: chunkTextSmart_def)
qed

lemma substring_whole: "substring s 0 (int (length s)) = s"
  by (simp add: substring_take_drop)

lemma chunkTextSmart_short: "int (length txt) \<le> m \<Longrightarrow> chunkTextSmart txt m ov = Some [whole_chunk txt]"
  by (simp add: chunkTextSmart_def whole_chunk_def)

lemma chunkTextSmart_absorbed:
  assumes "txt \<noteq> []" "\<not> int (length txt) \<le> m" "int (length txt) \<le> m + ov"
  shows "chunkTextSmart txt m ov = Some [whole_chunk txt]"
proof -
  let ?n = "int (length txt)"
  have p: "0 < ?n" using assms(1) by simp
  have e: "chunkEnd_of txt m ov 0 = ?n" using assms(3) by (simp add: chunkEnd_of_tail)
  have "chunk_loop txt m ov 0 [] [] =
          Some ([] @ [mk_chunk txt ov 0 [] (length ([]::SmartChunk list)) ?n])"
    by (subst chunk_loop_step[OF p e], subst chunk_loop_done) simp_all
  then show ?thesis using assms(2)
    by (simp add: chunkTextSmart_def mk_chunk_def set_total_def whole_chunk_def substring_whole)
qed

text \<open>
  Claim C8, as amended (no rejection of arguments). \<^verbatim>\<open>chunkTextSmart\<close> checks no
  argument and raises nothing. For \<open>maxChunkSize \<le> 0\<close> and a text of at most
  \<open>maxChunkSize + overlapSize\<close> characters it returns normally: one chunk holding the whole
  text, or no chunk at all when the text is empty and \<open>maxChunkSize < 0\<close>.
\<close>

theorem no_argument_rejection:
  assumes "maxChunkSize \<le> 0" "int (length txt) \<le> maxChunkSize + overlapSize"
  shows "chunkTextSmart txt maxChunkSize overlapSize =
           Some (if txt = [] \<and> maxChunkSize < 0 then [] else [whole_chunk txt])"
proof (cases "txt = []")
  case True
  show ?thesis
  proof (cases "maxChunkSize < 0")
    case True
    with \<open>txt = []\<close> show ?thesis by (simp add: chunkTextSmart_def chunk_loop_done)
  next
    case False
    with \<open>txt = []\<close> assms(1) show ?thesis by (simp add: chunkTextSmart_short)
  qed
next
  case False
  with assms(1) have "\<not> int (length txt) \<le> maxChunkSize" by (cases "txt") simp_all
  from chunkTextSmart_absorbed[OF False this assms(2)] False show ?thesis by simp
qed

theorem no_argument_rejection_witness:
  "chunkTextSmart (js ''ab'') 0 5 = Some [whole_chunk (js ''ab'')]"
  using no_argument_rejection[of 0 "js ''ab''" 5] by (simp add: js_def)

text \<open>
  Calls with \<open>maxChunkSize \<le> 0\<close> are not rejected: one returns the whole text as a chunk,
  one returns a chunk of length zero, and one never returns.
\<close>

theorem invalid_argument_counterexample:
  "chunkTextSmart (js ''ab'') (- 1) 5 = Some [whole_chunk (js ''ab'')]
   \<and> chunkTextSmart [] 0 0 = Some [whole_chunk []]
   \<and> chunkTextSmart (js ''ab'') 0 0 = None"
proof (intro conjI)
  show "chunkTextSmart (js ''ab'') (- 1) 5 = Some [whole_chunk (js ''ab'')]"
    by (rule chunkTextSmart_absorbed) (simp_all add: js_def)
  show "chunkTextSmart [] 0 0 = Some [whole_chunk []]"
    by (rule chunkTextSmart_short) simp
  show "chunkTextSmart (js ''ab'') 0 0 = None"
    by (rule chunkTextSmart_zero_diverges) (simp_all add: js_def)
qed

section \<open>The choice of the cut in the search window\<close>

lemma paragraphBreaks_marks: "paragraphBreaks w = map (lastIndexOf w) paragraph_marks"
  by (simp add: paragraphBreaks_def paragraph_marks_def)

lemma sentenceBreaks_marks: "sentenceBreaks w = map (lastIndexOf w) sentence_marks"
  by (simp add: sentenceBreaks_def sentence_marks_def)

lemma marks_nonempty:
  "\<forall>pat \<in> set paragraph_marks. pat \<noteq> []" "\<forall>pat \<in> set sentence_marks. pat \<noteq> []"
  by (simp_all add: paragraph_marks_def sentence_marks_def)

lemma lastIndexOf_le_break:
  assumes "pat \<in> set marks" "\<forall>i'. i < i' \<longrightarrow> \<not> break_at marks w i'"
  shows "lastIndexOf w pat \<le> int i"
proof -
  from lastIndexOf_cases[of w pat] show ?thesis
  proof
    assume "lastIndexOf w pat = - 1 \<and> (\<forall>k. \<not> prefix pat (drop k w))"
    then show ?thesis by simp
  next
    assume "\<exists>k. lastIndexOf w pat = int k \<and> k \<le> length w \<and> prefix pat (drop k w)
          \<and> (\<forall>k'. prefix pat (drop k' w) \<and> k' \<le> length w \<longrightarrow> k' \<le> k)"
    then obtain k where k: "lastIndexOf w pat = int k" "prefix pat (drop k w)" by blast
    have "k \<le> i"
    proof (rule ccontr)
      assume "\<not> k \<le> i"
      then have "i < k" "0 < k" by simp_all
      with k(2) assms(1) have "break_at marks w k" unfolding break_at_def by blast
      with assms(2) \<open>i < k\<close> show False by blast
    qed
    with k(1) show ?thesis by simp
  qed
qed

lemma best_mark_found:
  assumes ne: "\<forall>pat \<in> set marks. pat \<noteq> []"
    and br: "break_at marks w i"
    and top: "\<forall>i'. i < i' \<longrightarrow> \<not> break_at marks w i'"
  shows "Math_max (filter (\<lambda>i. 0 < i) (map (lastIndexOf w) marks)) = Num (int i)"
proof -
  let ?xs = "map (lastIndexOf w) marks"
  let ?X = "Math_max (filter (\<lambda>i. 0 < i) ?xs)"
  from br obtain pat where pat: "pat \<in> set marks" "prefix pat (drop i w)" and i: "0 < i"
    unfolding break_at_def by blast
  from ne pat(1) have "pat \<noteq> []" by blast
  with pat(2) have "drop i w \<noteq> []" by auto
  then have il: "i \<le> length w" by simp
  from lastIndexOf_cases[of w pat] pat(2)
  obtain k where k: "lastIndexOf w pat = int k" "k \<le> length w" "prefix pat (drop k w)"
    "\<forall>k'. prefix pat (drop k' w) \<and> k' \<le> length w \<longrightarrow> k' \<le> k"
    by blast
  from k(4) pat(2) il have "i \<le> k" by blast
  moreover from lastIndexOf_le_break[OF pat(1) top] k(1) have "k \<le> i" by simp
  ultimately have "lastIndexOf w pat = int i" using k(1) by simp
  with pat(1) have mem: "int i \<in> set ?xs" by force
  have ub: "\<forall>z \<in> set ?xs. z \<le> int i"
    using lastIndexOf_le_break[OF _ top] by auto
  have g: "gt_zero ?X"
  proof (rule ccontr)
    assume "\<not> gt_zero ?X"
    from Math_max_filter_none[OF this] mem i show False by force
  qed
  from Math_max_filter_pos(1)[OF g] ub have "num_val ?X \<le> int i" by blast
  moreover from Math_max_filter_pos(3)[OF g] mem have "int i \<le> num_val ?X" by blast
  ultimately have "num_val ?X = int i" by simp
  with g show ?thesis by (cases ?X) simp_all
qed

lemma best_mark_none:
  assumes "\<forall>i. \<not> break_at marks w i"
  shows "\<not> gt_zero (Math_max (filter (\<lambda>i. 0 < i) (map (lastIndexOf w) marks)))"
proof
  let ?xs = "map (lastIndexOf w) marks"
  assume g: "gt_zero (Math_max (filter (\<lambda>i. 0 < i) ?xs))"
  from Math_max_filter_pos(1,2)[OF g] obtain pat where
    pat: "pat \<in> set marks" "0 < lastIndexOf w pat" by auto
  from lastIndexOf_cases[of w pat] pat(2)
  obtain k where "lastIndexOf w pat = int k" "prefix pat (drop k w)" by auto
  with pat have "break_at marks w k" unfolding break_at_def by auto
  with assms show False by blast
qed

lemma chunkEnd_of_unfold:
  assumes "maxChunkSize + overlapSize < int (length txt) - position"
  shows "chunkEnd_of txt maxChunkSize overlapSize position =
     (let w = search_window txt maxChunkSize position;
          bestBreak = Math_max (filter (\<lambda>i. 0 < i) (map (lastIndexOf w) paragraph_marks));
          bestSentence = Math_max (filter (\<lambda>i. 0 < i) (map (lastIndexOf w) sentence_marks))
      in if gt_zero bestBreak
         then max (position + maxChunkSize - 2000) position + num_val bestBreak + 2
         else if gt_zero bestSentence
         then max (position + maxChunkSize - 2000) position + num_val bestSentence + 2
         else position + maxChunkSize)"
  using assms
  by (simp add: chunkEnd_of_def Let_def search_window_def paragraphBreaks_marks
      sentenceBreaks_marks)

lemma chunkEnd_of_paragraph:
  assumes "maxChunkSize + overlapSize < int (length txt) - position"
    and "break_at paragraph_marks (search_window txt maxChunkSize position) i"
    and "\<forall>i'. i < i' \<longrightarrow> \<not> break_at paragraph_marks (search_window txt maxChunkSize position) i'"
  shows "chunkEnd_of txt maxChunkSize overlapSize position =
           max (position + maxChunkSize - 2000) position + int i + 2"
  unfolding chunkEnd_of_unfold[OF assms(1)] Let_def
    best_mark_found[OF marks_nonempty(1) assms(2,3)]
  using assms(2) by (simp add: break_at_def)


lemma chunkEnd_of_cutoff:
  assumes "maxChunkSize + overlapSize < int (length txt) - position"
    and "\<forall>k. \<not> break_at paragraph_marks (search_window txt maxChunkSize position) k"
    and "\<forall>k. \<not> break_at sentence_marks (search_window txt maxChunkSize position) k"
  shows "chunkEnd_of txt maxChunkSize overlapSize position = position + maxChunkSize"
  unfolding chunkEnd_of_unfold[OF assms(1)] Let_def
  using best_mark_none[OF assms(2)] best_mark_none[OF assms(3)] by simp

section \<open>Runs on concrete texts\<close>

lemma end_mk_chunk [simp]: "endPosition (metadata (mk_chunk txt ov pos prev k e)) = e"
  by (simp add: mk_chunk_def)

lemma text_mk_chunk [simp]: "text_of (mk_chunk txt ov pos prev k e) = substring txt pos e"
  by (simp add: mk_chunk_def)

lemma end_set_total [simp]: "endPosition (metadata (set_total n c)) = endPosition (metadata c)"
  by (simp add: set_total_def)

lemma follows_run:
  "follows txt m ov pos es \<Longrightarrow>
   \<exists>cs. chunk_loop txt m ov pos prev chunks = Some (chunks @ cs)
       \<and> map (endPosition \<circ> metadata) cs = es \<and> map text_of cs = pieces txt pos es"
proof (induction es arbitrary: pos prev chunks)
  case Nil
  then show ?case by (simp add: chunk_loop_done)
next
  case (Cons e es)
  then have lt: "pos < int (length txt)" and ce: "chunkEnd_of txt m ov pos = e"
    and f: "follows txt m ov e es" by simp_all
  let ?c = "mk_chunk txt ov pos prev (length chunks) e"
  let ?p = "substring_from (substring txt pos e) (max 0 (int (length (substring txt pos e)) - ov))"
  from Cons.IH[OF f, of ?p "chunks @ [?c]"] obtain cs where
    cs: "chunk_loop txt m ov e ?p (chunks @ [?c]) = Some ((chunks @ [?c]) @ cs)"
      "map (endPosition \<circ> metadata) cs = es" "map text_of cs = pieces txt e es"
    by blast
  from chunk_loop_step[OF lt ce, of prev chunks] cs(1)
  have "chunk_loop txt m ov pos prev chunks = Some (chunks @ (?c # cs))" by simp
  moreover have "map (endPosition \<circ> metadata) (?c # cs) = e # es" using cs(2) by simp
  moreover have "map text_of (?c # cs) = pieces txt pos (e # es)" using cs(3) by simp
  ultimately show ?case by (intro exI[of _ "?c # cs"] conjI)
qed

lemma follows_chunkTextSmart:
  assumes "\<not> int (length txt) \<le> m" "follows txt m ov 0 es"
  shows "map_option (map (endPosition \<circ> metadata)) (chunkTextSmart txt m ov) = Some es"
    and "map_option (map text_of) (chunkTextSmart txt m ov) = Some (pieces txt 0 es)"
proof -
  from follows_run[OF assms(2), of "[]" "[]"] obtain cs where
    cs: "chunk_loop txt m ov 0 [] [] = Some cs"
      "map (endPosition \<circ> metadata) cs = es" "map text_of cs = pieces txt 0 es"
    by auto
  from cs(1) assms(1)
  have r: "chunkTextSmart txt m ov = Some (map (set_total (length cs)) cs)"
    by (simp add: chunkTextSmart_def)
  show "map_option (map (endPosition \<circ> metadata)) (chunkTextSmart txt m ov) = Some es"
    unfolding r using cs(2) by (simp add: comp_def)
  show "map_option (map text_of) (chunkTextSmart txt m ov) = Some (pieces txt 0 es)"
    unfolding r using cs(3) by (simp add: comp_def)
qed





lemma no_break_absent:
  assumes "\<forall>pat \<in> set marks. \<exists>c \<in> set pat. c \<notin> set w"
  shows "\<not> break_at marks w k"
proof
  assume "break_at marks w k"
  then obtain pat where pat: "pat \<in> set marks" "prefix pat (drop k w)"
    unfolding break_at_def by blast
  from set_mono_prefix[OF pat(2)] set_drop_subset[of k w] have "set pat \<subseteq> set w" by blast
  with assms pat(1) show False by blast
qed

lemma prefix_tl_subset:
  assumes "prefix pat s" "pat \<noteq> []"
  shows "set (tl pat) \<subseteq> set (tl s)"
proof -
  from assms obtain p ps zs where "pat = p # ps" "s = p # ps @ zs"
    by (cases pat) (auto simp: prefix_def)
  then show ?thesis by simp
qed

lemma no_paragraph_break_after:
  assumes "NL \<notin> set (drop (Suc i) w)"
  shows "\<not> break_at paragraph_marks w i"
proof
  assume "break_at paragraph_marks w i"
  then obtain pat where pat: "pat \<in> set paragraph_marks" "prefix pat (drop i w)"
    unfolding break_at_def by blast
  from pat(1) have "pat \<noteq> []" "NL \<in> set (tl pat)" by (auto simp: paragraph_marks_def)
  with prefix_tl_subset[OF pat(2)] have "NL \<in> set (tl (drop i w))" by blast
  then show False using assms by (simp add: drop_Suc tl_drop)
qed

lemma drop_past_mark:
  assumes "length pre < i"
  shows "drop (Suc i) (pre @ [a, b] @ post) = drop (i - Suc (length pre)) post"
proof -
  from assms obtain k where k: "i = Suc (length pre) + k"
    by (metis less_iff_Suc_add add_Suc)
  then show ?thesis by simp
qed

lemma late_break_length: "length late_break_text = 81502"
  by (simp add: late_break_text_def)

lemma late_break_window:
  "search_window late_break_text 75000 0 = replicate 3500 97 @ [NL, NL] @ replicate 498 98"
  by (simp add: search_window_def substring_take_drop late_break_length)
     (simp add: late_break_text_def)

lemma late_break_at:
  "break_at paragraph_marks (search_window late_break_text 75000 0) 3500"
  by (simp add: late_break_window break_at_def paragraph_marks_def)

lemma late_break_last:
  "\<forall>i'. 3500 < i' \<longrightarrow> \<not> break_at paragraph_marks (search_window late_break_text 75000 0) i'"
proof (intro allI impI)
  fix i' :: nat assume "3500 < i'"
  then have "length (replicate 3500 (97::jschar)) < i'" by simp
  from drop_past_mark[OF this, of NL NL "replicate 498 98"]
  have "set (drop (Suc i') (search_window late_break_text 75000 0)) \<subseteq> set (replicate 498 98)"
    unfolding late_break_window by (simp only: set_drop_subset)
  then have "NL \<notin> set (drop (Suc i') (search_window late_break_text 75000 0))" by auto
  then show "\<not> break_at paragraph_marks (search_window late_break_text 75000 0) i'"
    by (rule no_paragraph_break_after)
qed

lemma late_break_end: "chunkEnd_of late_break_text 75000 1000 0 = 76502"
proof -
  have "(75000::int) + 1000 < int (length late_break_text) - 0"
    by (simp add: late_break_length)
  from chunkEnd_of_paragraph[OF this late_break_at late_break_last] show ?thesis by simp
qed

lemma late_break_follows: "follows late_break_text 75000 1000 0 [76502, 81502]"
proof -
  have "chunkEnd_of late_break_text 75000 1000 76502 = int (length late_break_text)"
    by (rule chunkEnd_of_tail) (simp add: late_break_length)
  with late_break_end show ?thesis by (simp add: late_break_length)
qed

text \<open>
  With the default sizes a paragraph break 1500 characters past \<open>maxChunkSize\<close> makes the
  first chunk 502 characters longer than \<open>maxChunkSize + overlapSize\<close>.
\<close>

theorem chunk_size_bound_counterexample:
  "map_option (map (length \<circ> text_of))
     (chunkTextSmart (replicate 76500 97 @ [NL, NL] @ replicate 5000 98) 75000 1000)
     = Some [76502, 5000]"
proof -
  have n: "\<not> int (length late_break_text) \<le> 75000" by (simp add: late_break_length)
  from follows_chunkTextSmart(2)[OF n late_break_follows]
  obtain cs where cs: "chunkTextSmart late_break_text 75000 1000 = Some cs"
    "map text_of cs = [substring late_break_text 0 76502, substring late_break_text 76502 81502]"
    by auto
  have "map (length \<circ> text_of) cs = map length (map text_of cs)" by simp
  also have "\<dots> = [76502, 5000]"
    unfolding cs(2) by (simp add: length_substring late_break_length)
  finally have "map_option (map (length \<circ> text_of)) (chunkTextSmart late_break_text 75000 1000)
     = Some [76502, 5000]"
    using cs(1) by simp
  then show ?thesis by (simp only: late_break_text_def)
qed

theorem chunk_size_bound_window_witness:
  "\<exists>chunks c. chunkTextSmart late_break_text 75000 1000 = Some chunks
      \<and> c \<in> set chunks \<and> length (text_of c) = 76502
      \<and> int (length (text_of c)) \<le> 75000 + max 1000 2000"
proof -
  have n: "\<not> int (length late_break_text) \<le> 75000" by (simp add: late_break_length)
  from follows_chunkTextSmart(2)[OF n late_break_follows]
  obtain cs where cs: "chunkTextSmart late_break_text 75000 1000 = Some cs"
    "map text_of cs = [substring late_break_text 0 76502, substring late_break_text 76502 81502]"
    by auto
  from cs(2) obtain c d where cd: "cs = [c, d]" "text_of c = substring late_break_text 0 76502"
    by auto
  then have m: "c \<in> set cs" by simp
  have l: "length (text_of c) = 76502"
    unfolding cd(2) by (simp add: length_substring late_break_length)
  from chunk_size_bound_window[OF _ _ cs(1) m]
  have b: "int (length (text_of c)) \<le> 75000 + max 1000 2000" by simp
  show ?thesis by (intro exI[of _ cs] exI[of _ c] conjI cs(1) m l b)
qed




section \<open>Splitting and merging again\<close>

lemma merge_step_clean: "clean_boundary acc cur \<Longrightarrow> merge_step acc cur = acc @ cur"
proof -
  assume c: "clean_boundary acc cur"
  then have "bestOverlap_of acc cur = 0"
    using bestOverlap_detected[of acc cur] by (simp add: clean_boundary_def)
  from merge_step_miss[OF this] c show ?thesis by (auto simp: clean_boundary_def)
qed

lemma foldl_merge_clean:
  "\<forall>k < length rest. clean_boundary (x @ concat (take k rest)) (rest ! k) \<Longrightarrow>
   foldl merge_step x rest = x @ concat rest"
proof (induction rest arbitrary: x)
  case Nil
  then show ?case by simp
next
  case (Cons c rest)
  from Cons.prems have "clean_boundary (x @ concat (take 0 (c # rest))) ((c # rest) ! 0)"
    by (metis length_greater_0_conv list.discI)
  then have s: "merge_step x c = x @ c" by (simp add: merge_step_clean)
  have "\<forall>k < length rest. clean_boundary ((x @ c) @ concat (take k rest)) (rest ! k)"
  proof (intro allI impI)
    fix k assume "k < length rest"
    then have "Suc k < length (c # rest)" by simp
    with Cons.prems have "clean_boundary (x @ concat (take (Suc k) (c # rest))) ((c # rest) ! Suc k)"
      by blast
    then show "clean_boundary ((x @ c) @ concat (take k rest)) (rest ! k)" by simp
  qed
  from Cons.IH[OF this] s show ?case by simp
qed

lemma merge_clean:
  assumes "\<forall>k. 0 < k \<and> k < length ts \<longrightarrow> clean_boundary (concat (take k ts)) (ts ! k)"
  shows "mergeEditedChunks ts = concat ts"
proof (cases ts)
  case Nil
  then show ?thesis by (simp add: mergeEditedChunks_def)
next
  case (Cons x rest)
  have "\<forall>k < length rest. clean_boundary (x @ concat (take k rest)) (rest ! k)"
  proof (intro allI impI)
    fix k assume "k < length rest"
    with Cons have "0 < Suc k \<and> Suc k < length ts" by simp
    with assms have "clean_boundary (concat (take (Suc k) ts)) (ts ! Suc k)" by blast
    with Cons show "clean_boundary (x @ concat (take k rest)) (rest ! k)" by simp
  qed
  from foldl_merge_clean[OF this] Cons show ?thesis by (simp add: mergeEditedChunks_foldl)
qed

text \<open>
  Claim C2, as amended (round trip). For every text split by \<^verbatim>\<open>chunkTextSmart\<close> with
  \<open>maxChunkSize > 0\<close> and \<open>overlapSize \<ge> 0\<close>, merging the unmodified chunk texts gives back
  the text whenever every boundary is clean: the text before the boundary ends with, or
  the next chunk starts with, a newline or a space, and no end of 51 to 200 characters of
  the text before the boundary occurs in the first 500 characters of the next chunk.
\<close>

theorem roundtrip_clean_boundaries:
  assumes "0 < maxChunkSize" "0 \<le> overlapSize"
    and "chunkTextSmart txt maxChunkSize overlapSize = Some chunks"
    and "\<forall>k. 0 < k \<and> k < length (map text_of chunks) \<longrightarrow>
           clean_boundary (concat (take k (map text_of chunks))) (map text_of chunks ! k)"
  shows "mergeEditedChunks (map text_of chunks) = txt"
proof -
  from assms(1,2) have "\<exists>cs. chunkTextSmart txt maxChunkSize overlapSize = Some cs
      \<and> concat (map text_of cs) = txt"
  proof (cases "int (length txt) \<le> maxChunkSize")
    case True
    then show ?thesis by (simp add: chunkTextSmart_def)
  next
    case False
    with assms(1,2) chunkTextSmart_run[of maxChunkSize overlapSize "txt"]
    obtain cs where "chunkTextSmart txt maxChunkSize overlapSize = Some (map (set_total (length cs)) cs)"
      "concat (map text_of cs) = txt"
      by auto
    then show ?thesis by (simp add: comp_def)
  qed
  with assms(3) have "concat (map text_of chunks) = txt" by auto
  with merge_clean[OF assms(4)] show ?thesis by simp
qed

lemma chunkEnd_of_hard_plain:
  assumes "\<not> int (length txt) - pos \<le> m + ov" "NL \<notin> set txt" "SP \<notin> set txt"
  shows "chunkEnd_of txt m ov pos = pos + m"
  using assms(2,3) set_substring_subset[of "txt"]
  by (intro chunkEnd_of_hard[OF assms(1)]) blast+

lemma no_break_absent_text:
  assumes "\<forall>pat \<in> set marks. \<exists>c \<in> set pat. c \<notin> set txt"
  shows "\<not> break_at marks (search_window txt m pos) k"
proof (rule no_break_absent)
  show "\<forall>pat \<in> set marks. \<exists>c \<in> set pat. c \<notin> set (search_window txt m pos)"
    using assms set_substring_subset[of "txt"] unfolding search_window_def by blast
qed

lemma abcde_follows: "follows (js ''abcde'') 2 0 0 [2, 4, 5]"
proof -
  have e1: "chunkEnd_of (js ''abcde'') 2 0 0 = 0 + 2"
    by (rule chunkEnd_of_hard_plain) (simp_all add: js_def)
  have e2: "chunkEnd_of (js ''abcde'') 2 0 2 = 2 + 2"
    by (rule chunkEnd_of_hard_plain) (simp_all add: js_def)
  have e3: "chunkEnd_of (js ''abcde'') 2 0 4 = int (length (js ''abcde''))"
    by (rule chunkEnd_of_tail) (simp add: js_def)
  have l: "length (js ''abcde'') = 5" by (simp add: js_def)
  from e1 e2 e3 show ?thesis by (simp add: l)
qed

lemma abcde_pieces: "pieces (js ''abcde'') 0 [2, 4, 5] = [js ''ab'', js ''cd'', js ''e'']"
  by (simp add: substring_def js_def)

lemma merge_step_short_plain:
  assumes "length acc \<le> 50"
    and "acc \<noteq> []" "last acc \<noteq> NL" "last acc \<noteq> SP"
    and "cur \<noteq> []" "hd cur \<noteq> NL" "hd cur \<noteq> SP"
  shows "merge_step acc cur = acc @ [SP] @ cur"
  using merge_step_miss[OF bestOverlap_short[OF assms(1)], of cur] assms(2-)
  by (simp add: endsWith_single startsWith_single)

text \<open>
  A text without white space, cut by the size limit alone, does not survive the round trip
  of claim C2: the merge puts a space at each of the two boundaries.
\<close>

theorem roundtrip_counterexample:
  "map_option (mergeEditedChunks \<circ> map text_of) (chunkTextSmart (js ''abcde'') 2 0)
     = Some (js ''ab cd e'')"
proof -
  have n: "\<not> int (length (js ''abcde'')) \<le> 2" by (simp add: js_def)
  from follows_chunkTextSmart(2)[OF n abcde_follows]
  obtain cs where cs: "chunkTextSmart (js ''abcde'') 2 0 = Some cs"
    "map text_of cs = [js ''ab'', js ''cd'', js ''e'']"
    unfolding abcde_pieces by auto
  have m1: "merge_step (js ''ab'') (js ''cd'') = js ''ab cd''"
    by (subst merge_step_short_plain) (simp_all add: js_def)
  have m2: "merge_step (js ''ab cd'') (js ''e'') = js ''ab cd e''"
    by (subst merge_step_short_plain) (simp_all add: js_def)
  have "mergeEditedChunks [js ''ab'', js ''cd'', js ''e''] = js ''ab cd e''"
    by (simp add: mergeEditedChunks_def m1 m2)
  with cs show ?thesis by simp
qed

lemma ab_cd_follows: "follows (js ''ab cd'') 3 0 0 [3, 5]"
proof -
  have far: "(3::int) + 0 < int (length (js ''ab cd'')) - 0" by (simp add: js_def)
  have p: "\<forall>k. \<not> break_at paragraph_marks (search_window (js ''ab cd'') 3 0) k"
    by (intro allI no_break_absent_text) (simp add: js_def paragraph_marks_def)
  have q: "\<forall>k. \<not> break_at sentence_marks (search_window (js ''ab cd'') 3 0) k"
    by (intro allI no_break_absent_text) (simp add: js_def sentence_marks_def)
  have e1: "chunkEnd_of (js ''ab cd'') 3 0 0 = 0 + 3"
    by (rule chunkEnd_of_cutoff[OF far p q])
  have e2: "chunkEnd_of (js ''ab cd'') 3 0 3 = int (length (js ''ab cd''))"
    by (rule chunkEnd_of_tail) (simp add: js_def)
  have l: "length (js ''ab cd'') = 5" by (simp add: js_def)
  from e1 e2 show ?thesis by (simp add: l)
qed

lemma ab_cd_pieces: "pieces (js ''ab cd'') 0 [3, 5] = [js ''ab '', js ''cd'']"
  by (simp add: substring_def js_def)

theorem roundtrip_clean_boundaries_witness:
  "\<exists>chunks. chunkTextSmart (js ''ab cd'') 3 0 = Some chunks
      \<and> map text_of chunks = [js ''ab '', js ''cd'']
      \<and> mergeEditedChunks (map text_of chunks) = js ''ab cd''"
proof -
  have n: "\<not> int (length (js ''ab cd'')) \<le> 3" by (simp add: js_def)
  from follows_chunkTextSmart(2)[OF n ab_cd_follows]
  obtain cs where cs: "chunkTextSmart (js ''ab cd'') 3 0 = Some cs"
    "map text_of cs = [js ''ab '', js ''cd'']"
    unfolding ab_cd_pieces by auto
  have c: "clean_boundary (js ''ab '') (js ''cd'')"
    by (simp add: clean_boundary_def overlap_detected_def endsWith_single js_def)
  have h: "\<forall>k. 0 < k \<and> k < length (map text_of cs) \<longrightarrow>
           clean_boundary (concat (take k (map text_of cs))) (map text_of cs ! k)"
  proof (intro allI impI)
    fix k assume "0 < k \<and> k < length (map text_of cs)"
    then have "k = 1" unfolding cs(2) by simp
    with c show "clean_boundary (concat (take k (map text_of cs))) (map text_of cs ! k)"
      unfolding cs(2) by simp
  qed
  from roundtrip_clean_boundaries[OF _ _ cs(1) h]
  have m: "mergeEditedChunks (map text_of cs) = js ''ab cd''" by simp
  show ?thesis by (rule exI[of _ cs]) (intro conjI cs m)
qed

end
